theory Spec2Isabelle
  imports Complex_Main "HOL-Library.Multiset"
begin

section \<open>Python values used by the log analyzer\<close>

text \<open>
  The program is dynamically typed: a decoded JSON document is a Python value of any JSON
  shape, and the fields copied from it into a processed log entry keep whatever shape they
  had.  \<open>json\<close> is the result of \<^verbatim>\<open>json.loads\<close>: \<^verbatim>\<open>None\<close>, a bool, an int, a float, a
  str, a list or a dict.  A dict is an association list with distinct keys in insertion
  order (\<^verbatim>\<open>json.loads\<close> keeps the last of two equal keys).  A float is represented by the
  rational number it denotes; arithmetic on floats is modelled exactly, without rounding.
  A \<open>string\<close> stands for a Python \<^verbatim>\<open>str\<close> whose code points are below 256, one \<open>char\<close>
  per code point.
\<close>

datatype json =
    JNull
  | JBool bool
  | JInt int
  | JFloat rat
  | JStr string
  | JList "json list"
  | JDict "(string \<times> json) list"

text \<open>The exceptions that the modelled code can raise.\<close>

datatype error = TypeError | AttributeError | KeyError | OverflowError

text \<open>\<^verbatim>\<open>d.get(k, default)\<close> and \<^verbatim>\<open>k in d\<close> on a dict.\<close>

definition dict_get :: "(string \<times> json) list \<Rightarrow> string \<Rightarrow> json \<Rightarrow> json" where
  "dict_get d k dflt = (case map_of d k of None \<Rightarrow> dflt | Some v \<Rightarrow> v)"

definition dict_has :: "(string \<times> json) list \<Rightarrow> string \<Rightarrow> bool" where
  "dict_has d k = (map_of d k \<noteq> None)"

text \<open>Truth value of a Python object in a condition (\<^verbatim>\<open>if timestamp_str:\<close>).\<close>

fun truthy :: "json \<Rightarrow> bool" where
  "truthy JNull = False"
| "truthy (JBool b) = b"
| "truthy (JInt n) = (n \<noteq> 0)"
| "truthy (JFloat q) = (q \<noteq> 0)"
| "truthy (JStr s) = (s \<noteq> [])"
| "truthy (JList xs) = (xs \<noteq> [])"
| "truthy (JDict d) = (d \<noteq> [])"

text \<open>
  \<^verbatim>\<open>str.lower()\<close> on code points below 256: the ASCII capitals and the Latin-1 capitals
  (U+00C0 to U+00DE without the multiplication sign U+00D7) move up by 32.
\<close>

definition lower_char :: "char \<Rightarrow> char" where
  "lower_char c =
     (let n = of_char c :: nat
      in if (65 \<le> n \<and> n \<le> 90) \<or> (192 \<le> n \<and> n \<le> 222 \<and> n \<noteq> 215)
         then char_of (n + 32) else c)"

definition lower :: "string \<Rightarrow> string" where
  "lower s = map lower_char s"

text \<open>\<^verbatim>\<open>x.lower()\<close> on an arbitrary value: only a str has the method.\<close>

fun py_lower :: "json \<Rightarrow> error + string" where
  "py_lower (JStr s) = Inr (lower s)"
| "py_lower _ = Inl AttributeError"

text \<open>\<^verbatim>\<open>needle in hay\<close> on two strings.\<close>

fun starts_with :: "string \<Rightarrow> string \<Rightarrow> bool" where
  "starts_with [] hay = True"
| "starts_with (c # cs) [] = False"
| "starts_with (c # cs) (h # hs) = (c = h \<and> starts_with cs hs)"

fun contains :: "string \<Rightarrow> string \<Rightarrow> bool" where
  "contains needle [] = (needle = [])"
| "contains needle (h # hs) = (starts_with needle (h # hs) \<or> contains needle hs)"

section \<open>Instants\<close>

text \<open>
  A \<^verbatim>\<open>datetime\<close> is naive (no time zone) or aware (with a fixed UTC offset, as
  \<^verbatim>\<open>datetime.fromisoformat\<close> builds it from a trailing \<^verbatim>\<open>+HH:MM\<close>).  Both carry their
  wall-clock reading in microseconds since 0001-01-01T00:00:00; an aware one also carries
  its UTC offset in microseconds.  \<^verbatim>\<open>datetime.min\<close>, the sentinel of this program, is the
  naive instant 0.
\<close>

datatype datetime = Naive int | Aware int int

definition datetime_min :: datetime where
  "datetime_min = Naive 0"

text \<open>The largest wall-clock reading, 9999-12-31T23:59:59.999999.\<close>

definition max_micro :: int where
  "max_micro = 315537897599999999"

fun is_aware :: "datetime \<Rightarrow> bool" where
  "is_aware (Naive w) = False"
| "is_aware (Aware w off) = True"

text \<open>The position on the time line by which Python compares two instants of one kind.\<close>

fun instant :: "datetime \<Rightarrow> int" where
  "instant (Naive w) = w"
| "instant (Aware w off) = w - off"

text \<open>
  \<^verbatim>\<open>a == b\<close>: a naive and an aware instant are never equal (no exception); two of one kind
  are equal when they denote the same position.
\<close>

definition dt_eq :: "datetime \<Rightarrow> datetime \<Rightarrow> bool" where
  "dt_eq a b = (is_aware a = is_aware b \<and> instant a = instant b)"

text \<open>\<^verbatim>\<open>a < b\<close> and \<^verbatim>\<open>a > b\<close>: comparing a naive with an aware instant raises TypeError.\<close>

definition dt_lt :: "datetime \<Rightarrow> datetime \<Rightarrow> error + bool" where
  "dt_lt a b = (if is_aware a = is_aware b then Inr (instant a < instant b) else Inl TypeError)"

definition dt_gt :: "datetime \<Rightarrow> datetime \<Rightarrow> error + bool" where
  "dt_gt a b = dt_lt b a"

text \<open>\<^verbatim>\<open>a - b\<close> in microseconds: TypeError between a naive and an aware instant.\<close>

definition dt_sub :: "datetime \<Rightarrow> datetime \<Rightarrow> error + int" where
  "dt_sub a b = (if is_aware a = is_aware b then Inr (instant a - instant b) else Inl TypeError)"

text \<open>
  \<^verbatim>\<open>a + timedelta(minutes=m)\<close>: the wall-clock reading moves, the offset stays; a result
  outside the years 1 to 9999 raises OverflowError.
\<close>

fun dt_add_minutes :: "datetime \<Rightarrow> int \<Rightarrow> error + datetime" where
  "dt_add_minutes (Naive w) m =
     (let w' = w + m * 60000000
      in if 0 \<le> w' \<and> w' \<le> max_micro then Inr (Naive w') else Inl OverflowError)"
| "dt_add_minutes (Aware w off) m =
     (let w' = w + m * 60000000
      in if 0 \<le> w' \<and> w' \<le> max_micro then Inr (Aware w' off) else Inl OverflowError)"

section \<open>Processed log entries and the record normalizer\<close>

text \<open>
  The dict that \<^verbatim>\<open>process_log_entry\<close> builds.  \<open>timestamp\<close>, \<open>level\<close>, \<open>component\<close>,
  \<open>message\<close> and \<open>full_message\<close> are copied from the document and so may be any value.
\<close>

record log_entry =
  raw :: json
  line_number :: nat
  file_name :: string
  server_name :: string
  timestamp :: json
  parsed_timestamp :: datetime
  level :: json
  component :: json
  message :: json
  full_message :: json

text \<open>
  What the normalizer takes from outside the program: the standard library's
  \<^verbatim>\<open>datetime.fromisoformat\<close> (\<open>None\<close> where it raises ValueError), \<^verbatim>\<open>strftime\<close>,
  \<^verbatim>\<open>str()\<close> on a value that is not a str, \<^verbatim>\<open>json.dumps\<close>, and the time zone selected in
  the window (\<^verbatim>\<open>self.timezone_var.get()\<close>).
\<close>

record env =
  fromisoformat :: "string \<Rightarrow> datetime option"
  strftime :: "datetime \<Rightarrow> string \<Rightarrow> string"
  str_of :: "json \<Rightarrow> string"
  json_dumps :: "json \<Rightarrow> string"
  timezone_var :: string

text \<open>\<^verbatim>\<open>tz_map.get(selected_tz, 0)\<close> and \<^verbatim>\<open>tz_names.get(selected_tz, "UTC")\<close>.\<close>

definition tz_map :: "string \<Rightarrow> int" where
  "tz_map tz =
     (if tz = ''UTC'' then 0
      else if tz = ''Eastern (EDT)'' then - 4
      else if tz = ''Eastern (EST)'' then - 5
      else if tz = ''Central (CDT)'' then - 5
      else if tz = ''Central (CST)'' then - 6
      else if tz = ''Mountain (MDT)'' then - 6
      else if tz = ''Mountain (MST)'' then - 7
      else if tz = ''Pacific (PDT)'' then - 7
      else if tz = ''Pacific (PST)'' then - 8
      else 0)"

definition get_timezone_name :: "string \<Rightarrow> string" where
  "get_timezone_name tz =
     (if tz = ''Eastern (EDT)'' then ''EDT''
      else if tz = ''Eastern (EST)'' then ''EST''
      else if tz = ''Central (CDT)'' then ''CDT''
      else if tz = ''Central (CST)'' then ''CST''
      else if tz = ''Mountain (MDT)'' then ''MDT''
      else if tz = ''Mountain (MST)'' then ''MST''
      else if tz = ''Pacific (PDT)'' then ''PDT''
      else if tz = ''Pacific (PST)'' then ''PST''
      else ''UTC'')"

definition convert_timezone :: "string \<Rightarrow> datetime \<Rightarrow> error + datetime" where
  "convert_timezone tz utc_timestamp = dt_add_minutes utc_timestamp (60 * tz_map tz)"

text \<open>\<^verbatim>\<open>timestamp_str.replace('Z', '+00:00')\<close>: every \<^verbatim>\<open>Z\<close> is replaced.\<close>

definition replace_Z :: "string \<Rightarrow> string" where
  "replace_Z s = concat (map (\<lambda>c. if c = CHR ''Z'' then ''+00:00'' else [c]) s)"

text \<open>
  Lines 558 to 574: the pair (\<open>timestamp\<close>, \<open>parsed_timestamp\<close>).  The bare \<^verbatim>\<open>except:\<close>
  catches every failure inside the \<^verbatim>\<open>try\<close>: a value without \<^verbatim>\<open>replace\<close>, a string that
  \<^verbatim>\<open>fromisoformat\<close> rejects, and an overflow in \<^verbatim>\<open>convert_timezone\<close>; each leaves the raw
  value as display text and the sentinel as instant.
\<close>

definition extract_timestamp :: "env \<Rightarrow> json \<Rightarrow> json \<times> datetime" where
  "extract_timestamp ev timestamp_str =
     (if truthy timestamp_str then
        (case timestamp_str of
           JStr s \<Rightarrow>
             (case fromisoformat ev (replace_Z s) of
                None \<Rightarrow> (timestamp_str, datetime_min)
              | Some utc_timestamp \<Rightarrow>
                  (case convert_timezone (timezone_var ev) utc_timestamp of
                     Inl e \<Rightarrow> (timestamp_str, datetime_min)
                   | Inr local_timestamp \<Rightarrow>
                       (JStr (strftime ev local_timestamp
                                (''%Y-%m-%d %H:%M:%S '' @ get_timezone_name (timezone_var ev))),
                        utc_timestamp)))
         | _ \<Rightarrow> (timestamp_str, datetime_min))
      else (JStr ''N/A'', datetime_min))"

text \<open>Lines 580 to 589: the component.\<close>

definition extract_component :: "env \<Rightarrow> (string \<times> json) list \<Rightarrow> json" where
  "extract_component ev entry =
     (if dict_has entry ''component'' then
        (case dict_get entry ''component'' JNull of
           JDict comp_info \<Rightarrow>
             dict_get comp_info ''binary'' (dict_get comp_info ''type'' (JStr ''unknown''))
         | JStr s \<Rightarrow> JStr s
         | v \<Rightarrow> JStr (str_of ev v))
      else if dict_has entry ''service.name'' then dict_get entry ''service.name'' JNull
      else JStr ''unknown'')"

text \<open>
  Line 595: \<^verbatim>\<open>message[:100] + '...' if len(message) > 100 else message\<close>.  \<^verbatim>\<open>len\<close> raises
  TypeError on \<^verbatim>\<open>None\<close>, a bool and a number; a list of more than 100 elements cannot be
  added to a str, and a dict of more than 100 keys cannot be sliced (TypeError; KeyError
  from Python 3.12 on).
\<close>

fun message_preview :: "json \<Rightarrow> error + json" where
  "message_preview (JStr m) = Inr (JStr (if length m > 100 then take 100 m @ ''...'' else m))"
| "message_preview (JList xs) = (if length xs > 100 then Inl TypeError else Inr (JList xs))"
| "message_preview (JDict d) = (if length d > 100 then Inl TypeError else Inr (JDict d))"
| "message_preview _ = Inl TypeError"

text \<open>
  \<^verbatim>\<open>process_log_entry(entry, line_num, file_name, server_name)\<close>.  A decoded line that is
  not a dict has no \<^verbatim>\<open>get\<close>: AttributeError.
\<close>

fun process_log_entry :: "env \<Rightarrow> json \<Rightarrow> nat \<Rightarrow> string \<Rightarrow> string \<Rightarrow> error + log_entry" where
  "process_log_entry ev (JDict entry) line_num fname sname =
     (let ts = extract_timestamp ev (dict_get entry ''@timestamp'' (JStr ''''));
          log_level = dict_get entry ''log.level'' (JStr ''unknown'');
          comp = extract_component ev entry;
          msg = dict_get entry ''message'' (JStr '''')
      in case message_preview msg of
           Inl e \<Rightarrow> Inl e
         | Inr preview \<Rightarrow>
             Inr \<lparr> raw = JDict entry, line_number = line_num, file_name = fname,
                   server_name = sname, timestamp = fst ts, parsed_timestamp = snd ts,
                   level = log_level, component = comp, message = preview,
                   full_message = msg \<rparr>)"
| "process_log_entry ev _ line_num fname sname = Inl AttributeError"

section \<open>Server groups\<close>

text \<open>
  A Python \<^verbatim>\<open>set\<close> is a list without repetition.  Only hashable values can be members
  (a list or a dict raises TypeError), and membership is by Python equality, under which
  \<^verbatim>\<open>True\<close>, \<^verbatim>\<open>1\<close> and \<^verbatim>\<open>1.0\<close> are one element.
\<close>

fun hashable :: "json \<Rightarrow> bool" where
  "hashable (JList xs) = False"
| "hashable (JDict d) = False"
| "hashable _ = True"

fun num_val :: "json \<Rightarrow> rat option" where
  "num_val (JBool b) = Some (if b then 1 else 0)"
| "num_val (JInt n) = Some (of_int n)"
| "num_val (JFloat q) = Some q"
| "num_val _ = None"

definition key_eq :: "json \<Rightarrow> json \<Rightarrow> bool" where
  "key_eq a b =
     (case (num_val a, num_val b) of
        (Some x, Some y) \<Rightarrow> x = y
      | (None, None) \<Rightarrow> a = b
      | _ \<Rightarrow> False)"

definition set_add :: "json list \<Rightarrow> json \<Rightarrow> error + json list" where
  "set_add s x =
     (if hashable x then Inr (if list_ex (\<lambda>y. key_eq y x) s then s else s @ [x])
      else Inl TypeError)"

definition str_set_add :: "string list \<Rightarrow> string \<Rightarrow> string list" where
  "str_set_add s x = (if x \<in> set s then s else s @ [x])"

record server_group =
  name :: string
  logs :: "log_entry list"
  components :: "json list"
  log_levels :: "json list"
  loaded_files :: "string list"

definition new_server_group :: "string \<Rightarrow> server_group" where
  "new_server_group n =
     \<lparr> name = n, logs = [], components = [], log_levels = [], loaded_files = [] \<rparr>"

text \<open>
  \<^verbatim>\<open>ServerGroup.add_log\<close>: the three statements run in order, so a failing
  \<^verbatim>\<open>components.add\<close> leaves the entry appended, and a failing \<^verbatim>\<open>log_levels.add\<close> leaves
  the entry appended and its component recorded.
\<close>

definition add_log :: "server_group \<Rightarrow> log_entry \<Rightarrow> error option \<times> server_group" where
  "add_log g processed_log =
     (let g1 = g\<lparr>logs := logs g @ [processed_log]\<rparr>
      in case set_add (components g1) (component processed_log) of
           Inl e \<Rightarrow> (Some e, g1)
         | Inr cs \<Rightarrow>
             (let g2 = g1\<lparr>components := cs\<rparr>
              in case set_add (log_levels g2) (level processed_log) of
                   Inl e \<Rightarrow> (Some e, g2)
                 | Inr ls \<Rightarrow> (None, g2\<lparr>log_levels := ls\<rparr>)))"

definition clear :: "server_group \<Rightarrow> server_group" where
  "clear g = g\<lparr>logs := [], components := [], log_levels := [], loaded_files := []\<rparr>"


text \<open>
  \<^verbatim>\<open>ServerGroup.get_stats\<close>.  \<^verbatim>\<open>log['level'].lower()\<close> raises AttributeError at the first
  entry whose level is not a str.
\<close>

record stats =
  total_logs :: nat
  stat_components :: nat
  files :: nat
  errors :: nat
  warnings :: nat

fun levels_lower :: "log_entry list \<Rightarrow> error + string list" where
  "levels_lower [] = Inr []"
| "levels_lower (x # xs) =
     (case py_lower (level x) of
        Inl e \<Rightarrow> Inl e
      | Inr l \<Rightarrow> (case levels_lower xs of Inl e \<Rightarrow> Inl e | Inr ls \<Rightarrow> Inr (l # ls)))"

definition get_stats :: "server_group \<Rightarrow> error + stats" where
  "get_stats g =
     (case levels_lower (logs g) of
        Inl e \<Rightarrow> Inl e
      | Inr ls \<Rightarrow>
          Inr \<lparr> total_logs = length (logs g),
                stat_components = length (components g),
                files = length (loaded_files g),
                errors = length (filter (\<lambda>l. l = ''error'') ls),
                warnings = length (filter (\<lambda>l. l \<in> set [''warn'', ''warning'']) ls) \<rparr>)"

section \<open>Loading files into a server group\<close>

text \<open>
  \<^verbatim>\<open>list.sort\<close> and \<^verbatim>\<open>sorted\<close> are a stable comparison sort that asks only \<^verbatim>\<open>a < b\<close>.
  They are modelled by a stable insertion sort that asks the same question; \<open>lt\<close> is the
  comparison, which may raise.  A comparison that raises ends the sort with that
  exception.  Whether some comparison raises does not depend on the sorting algorithm
  for the comparisons used here (two elements that are neighbours in the result have been
  compared), and a stable sort that succeeds has one possible result.
\<close>

fun insert_sorted :: "('a \<Rightarrow> 'a \<Rightarrow> error + bool) \<Rightarrow> 'a \<Rightarrow> 'a list \<Rightarrow> error + 'a list" where
  "insert_sorted lt x [] = Inr [x]"
| "insert_sorted lt x (y # ys) =
     (case lt x y of
        Inl e \<Rightarrow> Inl e
      | Inr True \<Rightarrow> Inr (x # y # ys)
      | Inr False \<Rightarrow>
          (case insert_sorted lt x ys of Inl e \<Rightarrow> Inl e | Inr r \<Rightarrow> Inr (y # r)))"

fun sort_into :: "('a \<Rightarrow> 'a \<Rightarrow> error + bool) \<Rightarrow> 'a list \<Rightarrow> 'a list \<Rightarrow> error + 'a list" where
  "sort_into lt acc [] = Inr acc"
| "sort_into lt acc (x # xs) =
     (case insert_sorted lt x acc of Inl e \<Rightarrow> Inl e | Inr acc' \<Rightarrow> sort_into lt acc' xs)"

definition py_sorted :: "('a \<Rightarrow> 'a \<Rightarrow> error + bool) \<Rightarrow> 'a list \<Rightarrow> error + 'a list" where
  "py_sorted lt xs = sort_into lt [] xs"

text \<open>
  \<^verbatim>\<open>logs.sort(key=lambda x: x.get('parsed_timestamp', datetime.min))\<close>.  Every processed
  entry has the key, so the default is never used.  (When a comparison raises, CPython
  leaves the list holding the same entries in an order that depends on how far the sort
  had got; the model keeps the order before the call, which is what CPython leaves when
  the very first comparison raises.)
\<close>

definition sort_by_timestamp :: "log_entry list \<Rightarrow> error + log_entry list" where
  "sort_by_timestamp xs =
     py_sorted (\<lambda>a b. dt_lt (parsed_timestamp a) (parsed_timestamp b)) xs"

text \<open>
  One line of a file after \<^verbatim>\<open>strip()\<close>: empty, rejected by \<^verbatim>\<open>json.loads\<close>
  (JSONDecodeError), or decoded to a value.
\<close>

datatype line = Blank | Malformed | Doc json

text \<open>
  The loop of \<^verbatim>\<open>_load_file_thread\<close> (lines 524 to 537) from line number \<open>line_num\<close> on.
  It returns the exception that ended it, if any, the group as the loop left it, and
  \<^verbatim>\<open>new_logs\<close>.  Only JSONDecodeError is caught inside the loop; an exception of the
  normalizer or of \<^verbatim>\<open>add_log\<close> leaves the loop and the entries added so far stay.
\<close>

fun load_lines ::
  "env \<Rightarrow> string \<Rightarrow> string \<Rightarrow> nat \<Rightarrow> line list \<Rightarrow> server_group \<Rightarrow> log_entry list
     \<Rightarrow> error option \<times> server_group \<times> log_entry list" where
  "load_lines ev fname sname line_num [] g new_logs = (None, g, new_logs)"
| "load_lines ev fname sname line_num (Blank # ls) g new_logs =
     load_lines ev fname sname (Suc line_num) ls g new_logs"
| "load_lines ev fname sname line_num (Malformed # ls) g new_logs =
     load_lines ev fname sname (Suc line_num) ls g new_logs"
| "load_lines ev fname sname line_num (Doc log_entry # ls) g new_logs =
     (case process_log_entry ev log_entry line_num fname sname of
        Inl e \<Rightarrow> (Some e, g, new_logs)
      | Inr processed_entry \<Rightarrow>
          (case add_log g processed_entry of
             (Some e, g') \<Rightarrow> (Some e, g', new_logs @ [processed_entry])
           | (None, g') \<Rightarrow>
               load_lines ev fname sname (Suc line_num) ls g' (new_logs @ [processed_entry])))"

text \<open>
  What a load reports: the duplicate warning of \<^verbatim>\<open>add_file\<close>, the error dialog of the
  outer \<^verbatim>\<open>except Exception\<close>, or the number of new entries handed to the display.
\<close>

datatype outcome = DuplicateFile | LoadFailed error | Loaded nat

text \<open>
  \<^verbatim>\<open>_load_file_thread\<close>, run to its end before anything else touches the group.  The file
  name enters \<^verbatim>\<open>loaded_files\<close> first; then the lines are processed; then the whole list
  is sorted.
\<close>

definition load_file_thread ::
  "env \<Rightarrow> server_group \<Rightarrow> string \<Rightarrow> line list \<Rightarrow> outcome \<times> server_group" where
  "load_file_thread ev g fname lines =
     (let g1 = g\<lparr>loaded_files := str_set_add (loaded_files g) fname\<rparr>
      in case load_lines ev fname (name g) 1 lines g1 [] of
           (Some e, g2, new_logs) \<Rightarrow> (LoadFailed e, g2)
         | (None, g2, new_logs) \<Rightarrow>
             (case sort_by_timestamp (logs g2) of
                Inl e \<Rightarrow> (LoadFailed e, g2)
              | Inr sorted_logs \<Rightarrow> (Loaded (length new_logs), g2\<lparr>logs := sorted_logs\<rparr>)))"

text \<open>\<^verbatim>\<open>load_file\<close> clears the group first; \<^verbatim>\<open>add_file\<close> refuses a file name already loaded.\<close>

definition load_file ::
  "env \<Rightarrow> server_group \<Rightarrow> string \<Rightarrow> line list \<Rightarrow> outcome \<times> server_group" where
  "load_file ev g fname lines = load_file_thread ev (clear g) fname lines"

definition add_file ::
  "env \<Rightarrow> server_group \<Rightarrow> string \<Rightarrow> line list \<Rightarrow> outcome \<times> server_group" where
  "add_file ev g fname lines =
     (if fname \<in> set (loaded_files g) then (DuplicateFile, g)
      else load_file_thread ev g fname lines)"


section \<open>A concrete environment\<close>

text \<open>
  The theorems below hold for every environment.  Closed examples need one, so here is
  the part of the standard library that they run: \<^verbatim>\<open>datetime.fromisoformat\<close> on the layout
  \<^verbatim>\<open>YYYY-MM-DD\<close>, one separator character, \<^verbatim>\<open>HH:MM:SS\<close>, an optional fraction of three or
  six digits and an optional offset \<^verbatim>\<open>+HH:MM\<close> or \<^verbatim>\<open>-HH:MM\<close> (every CPython from 3.7 on
  reads such a string in this way; the further layouts that some versions accept are
  rejected here), and \<^verbatim>\<open>strftime\<close> for the one format the program uses.  No example
  runs \<^verbatim>\<open>str()\<close> on a value that is not a str or \<^verbatim>\<open>json.dumps\<close>; this environment gives
  them a placeholder text.
\<close>

definition digit_val :: "char \<Rightarrow> int option" where
  "digit_val c =
     (let n = of_char c :: int in if 48 \<le> n \<and> n \<le> 57 then Some (n - 48) else None)"

fun digits_val :: "int \<Rightarrow> string \<Rightarrow> int option" where
  "digits_val acc [] = Some acc"
| "digits_val acc (c # cs) =
     (case digit_val c of None \<Rightarrow> None | Some d \<Rightarrow> digits_val (10 * acc + d) cs)"

definition number :: "string \<Rightarrow> int option" where
  "number s = (if s = [] then None else digits_val 0 s)"

definition is_leap :: "int \<Rightarrow> bool" where
  "is_leap y = (y mod 4 = 0 \<and> (y mod 100 \<noteq> 0 \<or> y mod 400 = 0))"

definition days_in_month :: "int \<Rightarrow> int \<Rightarrow> int" where
  "days_in_month y m =
     (if m = 2 then (if is_leap y then 29 else 28)
      else if m = 4 \<or> m = 6 \<or> m = 9 \<or> m = 11 then 30 else 31)"

definition days_before_year :: "int \<Rightarrow> int" where
  "days_before_year y =
     (let p = y - 1 in 365 * p + p div 4 - p div 100 + p div 400)"

fun days_before_month :: "int \<Rightarrow> nat \<Rightarrow> int" where
  "days_before_month y 0 = 0"
| "days_before_month y (Suc m) =
     (if m = 0 then 0 else days_before_month y m + days_in_month y (int m))"

text \<open>Microseconds from 0001-01-01T00:00:00 to the given wall-clock reading.\<close>

definition wall_clock :: "int \<Rightarrow> int \<Rightarrow> int \<Rightarrow> int \<Rightarrow> int \<Rightarrow> int \<Rightarrow> int \<Rightarrow> int" where
  "wall_clock y m d hh mi ss us =
     ((((days_before_year y + days_before_month y (nat m) + (d - 1)) * 24 + hh) * 60 + mi) * 60
        + ss) * 1000000 + us"

definition parse_fraction :: "string \<Rightarrow> (int \<times> string) option" where
  "parse_fraction s =
     (case s of
        [] \<Rightarrow> Some (0, s)
      | c # cs \<Rightarrow>
          (if c = CHR ''.'' then
             (case (if length cs \<ge> 6 then number (take 6 cs) else None) of
                Some us \<Rightarrow> Some (us, drop 6 cs)
              | None \<Rightarrow>
                  (case (if length cs \<ge> 3 then number (take 3 cs) else None) of
                     Some ms \<Rightarrow> Some (1000 * ms, drop 3 cs)
                   | None \<Rightarrow> None))
           else Some (0, s)))"

definition parse_offset :: "string \<Rightarrow> int option option" where
  "parse_offset s =
     (if s = [] then Some None
      else if length s = 6 \<and> (s ! 0 = CHR ''+'' \<or> s ! 0 = CHR ''-'') \<and> s ! 3 = CHR '':'' then
        (case (number (take 2 (drop 1 s)), number (drop 4 s)) of
           (Some hh, Some mi) \<Rightarrow>
             (if hh < 24 \<and> mi < 60
              then Some (Some ((if s ! 0 = CHR ''-'' then - 1 else 1)
                               * (hh * 60 + mi) * 60000000))
              else None)
         | _ \<Rightarrow> None)
      else None)"

definition fromisoformat_basic :: "string \<Rightarrow> datetime option" where
  "fromisoformat_basic s =
     (if length s < 19 \<or> s ! 4 \<noteq> CHR ''-'' \<or> s ! 7 \<noteq> CHR ''-''
         \<or> s ! 13 \<noteq> CHR '':'' \<or> s ! 16 \<noteq> CHR '':'' then None
      else
        (case (number (take 4 s), number (take 2 (drop 5 s)), number (take 2 (drop 8 s)),
               number (take 2 (drop 11 s)), number (take 2 (drop 14 s)),
               number (take 2 (drop 17 s))) of
           (Some y, Some m, Some d, Some hh, Some mi, Some ss) \<Rightarrow>
             (if 1 \<le> y \<and> 1 \<le> m \<and> m \<le> 12 \<and> 1 \<le> d \<and> d \<le> days_in_month y m
                 \<and> hh < 24 \<and> mi < 60 \<and> ss < 60 then
                (case parse_fraction (drop 19 s) of
                   None \<Rightarrow> None
                 | Some (us, rest) \<Rightarrow>
                     (case parse_offset rest of
                        None \<Rightarrow> None
                      | Some None \<Rightarrow> Some (Naive (wall_clock y m d hh mi ss us))
                      | Some (Some off) \<Rightarrow> Some (Aware (wall_clock y m d hh mi ss us) off)))
              else None)
         | _ \<Rightarrow> None))"

text \<open>
  \<^verbatim>\<open>strftime('%Y-%m-%d %H:%M:%S ...')\<close>: the directives are replaced by the fields of the
  wall-clock reading, each padded with zeros, and the rest of the format is copied.
\<close>

definition two_digits :: "int \<Rightarrow> string" where
  "two_digits n = [char_of (48 + n div 10 mod 10), char_of (48 + n mod 10)]"

definition four_digits :: "int \<Rightarrow> string" where
  "four_digits n = two_digits (n div 100) @ two_digits (n mod 100)"

definition year_of_day :: "int \<Rightarrow> int" where
  "year_of_day n =
     (let n400 = n div 146097; r400 = n mod 146097;
          n100 = r400 div 36524; r100 = r400 mod 36524;
          n4 = r100 div 1461; r4 = r100 mod 1461;
          n1 = r4 div 365;
          y = n400 * 400 + n100 * 100 + n4 * 4 + n1 + 1
      in if n1 = 4 \<or> n100 = 4 then y - 1 else y)"

fun month_of_day :: "nat \<Rightarrow> int \<Rightarrow> nat \<Rightarrow> int \<Rightarrow> nat" where
  "month_of_day 0 y m n = m"
| "month_of_day (Suc fuel) y m n =
     (if days_before_month y (Suc m) \<le> n then month_of_day fuel y (Suc m) n else m)"

definition wall_of :: "datetime \<Rightarrow> int" where
  "wall_of t = (case t of Naive w \<Rightarrow> w | Aware w off \<Rightarrow> w)"

definition strftime_basic :: "datetime \<Rightarrow> string \<Rightarrow> string" where
  "strftime_basic t fmt =
     (let secs = wall_of t div 1000000;
          days = secs div 86400;
          y = year_of_day days;
          nd = days - days_before_year y;
          m = month_of_day 11 y 1 nd;
          d = nd - days_before_month y m + 1
      in four_digits y @ ''-'' @ two_digits (int m) @ ''-'' @ two_digits d @ '' ''
         @ two_digits (secs div 3600 mod 24) @ '':'' @ two_digits (secs div 60 mod 60) @ '':''
         @ two_digits (secs mod 60) @ drop 17 fmt)"

definition env_utc :: env where
  "env_utc = \<lparr> fromisoformat = fromisoformat_basic, strftime = strftime_basic,
               str_of = (\<lambda>v. ''?''), json_dumps = (\<lambda>v. ''?''),
               timezone_var = ''UTC'' \<rparr>"

section \<open>The filter of a server view\<close>

text \<open>
  The filter values of \<^verbatim>\<open>apply_filters\<close>: the three combobox strings (\<open>All\<close> for no
  constraint), the search box, and the local variables \<^verbatim>\<open>start_time\<close> and \<^verbatim>\<open>end_time\<close> as
  lines 1268 to 1288 leave them: \<open>None\<close> for an empty or unreadable box, else the instant
  that \<^verbatim>\<open>fromisoformat\<close> or \<^verbatim>\<open>strptime\<close> returned.
\<close>

record filter_spec =
  component_filter :: string
  level_filter :: string
  file_filter :: string
  search_var :: string
  start_time :: "datetime option"
  end_time :: "datetime option"

text \<open>\<^verbatim>\<open>value != text\<close> for a str \<^verbatim>\<open>text\<close>: a value that is not a str differs from it.\<close>

fun ne_str :: "json \<Rightarrow> string \<Rightarrow> bool" where
  "ne_str (JStr s) t = (s \<noteq> t)"
| "ne_str _ t = True"

text \<open>
  The body of the loop (lines 1292 to 1317) for one entry: \<open>Inr True\<close> when the entry is
  appended to \<^verbatim>\<open>filtered_logs\<close>, \<open>Inr False\<close> when a \<^verbatim>\<open>continue\<close> skips it.  A datetime
  is always true in a condition, so \<^verbatim>\<open>if start_time and ...\<close> asks only whether the bound
  is there.
\<close>

definition passes :: "env \<Rightarrow> filter_spec \<Rightarrow> log_entry \<Rightarrow> error + bool" where
  "passes ev f l =
     (if component_filter f \<noteq> ''All'' \<and> ne_str (component l) (component_filter f) then Inr False
      else if level_filter f \<noteq> ''All'' \<and> ne_str (level l) (level_filter f) then Inr False
      else if file_filter f \<noteq> ''All'' \<and> file_name l \<noteq> file_filter f then Inr False
      else
        (case (case start_time f of
                 None \<Rightarrow> Inr False
               | Some s \<Rightarrow> dt_lt (parsed_timestamp l) s) of
           Inl e \<Rightarrow> Inl e
         | Inr True \<Rightarrow> Inr False
         | Inr False \<Rightarrow>
             (case (case end_time f of
                      None \<Rightarrow> Inr False
                    | Some e \<Rightarrow> dt_gt (parsed_timestamp l) e) of
                Inl e \<Rightarrow> Inl e
              | Inr True \<Rightarrow> Inr False
              | Inr False \<Rightarrow>
                  (if lower (search_var f) \<noteq> [] then
                     (case full_message l of
                        JStr m \<Rightarrow>
                          Inr (contains (lower (search_var f))
                                 (lower (m @ '' '' @ json_dumps ev (raw l))))
                      | _ \<Rightarrow> Inl TypeError)
                   else Inr True))))"

fun filter_logs :: "env \<Rightarrow> filter_spec \<Rightarrow> log_entry list \<Rightarrow> error + log_entry list" where
  "filter_logs ev f [] = Inr []"
| "filter_logs ev f (l # ls) =
     (case passes ev f l of
        Inl e \<Rightarrow> Inl e
      | Inr b \<Rightarrow>
          (case filter_logs ev f ls of
             Inl e \<Rightarrow> Inl e
           | Inr r \<Rightarrow> Inr (if b then l # r else r)))"

definition apply_filters :: "env \<Rightarrow> filter_spec \<Rightarrow> server_group \<Rightarrow> error + log_entry list" where
  "apply_filters ev f g = filter_logs ev f (logs g)"

text \<open>
  What it means for an entry to meet the constraints of a filter other than its time
  range: each of component, level and file is \<open>All\<close> or equal to the entry's, and the
  search text is empty or occurs, in lower case, in the message followed by a blank and
  the serialized document.
\<close>

definition meets_other_constraints :: "env \<Rightarrow> filter_spec \<Rightarrow> log_entry \<Rightarrow> bool" where
  "meets_other_constraints ev f l \<longleftrightarrow>
     (component_filter f = ''All'' \<or> component l = JStr (component_filter f))
   \<and> (level_filter f = ''All'' \<or> level l = JStr (level_filter f))
   \<and> (file_filter f = ''All'' \<or> file_name l = file_filter f)
   \<and> (search_var f = [] \<or>
        (\<exists>m. full_message l = JStr m
           \<and> contains (lower (search_var f)) (lower (m @ '' '' @ json_dumps ev (raw l)))))"

section \<open>Example records\<close>

text \<open>
  Two processed entries used in the examples: what the normalizer returns for
  \<^verbatim>\<open>{"message": "no timestamp"}\<close> and for
  \<^verbatim>\<open>{"@timestamp": "2024-01-15 10:00:00", "message": "dated"}\<close> at lines 1 and 2 of
  \<open>agent.ndjson\<close>, and a group that holds them.
\<close>

definition undated_entry :: log_entry where
  "undated_entry =
     \<lparr> raw = JDict [(''message'', JStr ''no timestamp'')], line_number = 1,
       file_name = ''agent.ndjson'', server_name = ''Server A'',
       timestamp = JStr ''N/A'', parsed_timestamp = datetime_min,
       level = JStr ''unknown'', component = JStr ''unknown'',
       message = JStr ''no timestamp'', full_message = JStr ''no timestamp'' \<rparr>"

definition dated_entry :: log_entry where
  "dated_entry =
     \<lparr> raw = JDict [(''@timestamp'', JStr ''2024-01-15 10:00:00''), (''message'', JStr ''dated'')],
       line_number = 2, file_name = ''agent.ndjson'', server_name = ''Server A'',
       timestamp = JStr ''2024-01-15 10:00:00 UTC'',
       parsed_timestamp = Naive 63840909600000000,
       level = JStr ''unknown'', component = JStr ''unknown'',
       message = JStr ''dated'', full_message = JStr ''dated'' \<rparr>"

definition example_group :: server_group where
  "example_group =
     \<lparr> name = ''Server A'', logs = [undated_entry, dated_entry],
       components = [JStr ''unknown''], log_levels = [JStr ''unknown''],
       loaded_files = [''agent.ndjson''] \<rparr>"


text \<open>
  Six entries of one component, \<open>filebeat\<close>, as the normalizer returns them for the
  lines \<^verbatim>\<open>{"@timestamp": ts, "service.name": "filebeat", "log.level": "info", "message": msg}\<close>:
  it stops at 10:00 and then starts something at 10:01, 10:02, 10:03, 10:04 and 10:05.
\<close>

definition service_doc :: "string \<Rightarrow> string \<Rightarrow> json" where
  "service_doc ts msg =
     JDict [(''@timestamp'', JStr ts), (''service.name'', JStr ''filebeat''),
            (''log.level'', JStr ''info''), (''message'', JStr msg)]"

definition service_entry :: "nat \<Rightarrow> string \<Rightarrow> string \<Rightarrow> string \<Rightarrow> datetime \<Rightarrow> log_entry" where
  "service_entry n ts shown msg t =
     \<lparr> raw = service_doc ts msg, line_number = n, file_name = ''agent.ndjson'',
       server_name = ''Server A'', timestamp = JStr shown, parsed_timestamp = t,
       level = JStr ''info'', component = JStr ''filebeat'', message = JStr msg,
       full_message = JStr msg \<rparr>"

definition restart_group :: server_group where
  "restart_group =
     \<lparr> name = ''Server A'',
       logs =
         [service_entry 1 ''2024-01-15T10:00:00Z'' ''2024-01-15 10:00:00 UTC'' ''Input stopped''
            (Aware 63840909600000000 0),
          service_entry 2 ''2024-01-15T10:01:00Z'' ''2024-01-15 10:01:00 UTC'' ''Input started''
            (Aware 63840909660000000 0),
          service_entry 3 ''2024-01-15T10:02:00Z'' ''2024-01-15 10:02:00 UTC'' ''Harvester started''
            (Aware 63840909720000000 0),
          service_entry 4 ''2024-01-15T10:03:00Z'' ''2024-01-15 10:03:00 UTC'' ''Harvester started''
            (Aware 63840909780000000 0),
          service_entry 5 ''2024-01-15T10:04:00Z'' ''2024-01-15 10:04:00 UTC'' ''Harvester started''
            (Aware 63840909840000000 0),
          service_entry 6 ''2024-01-15T10:05:00Z'' ''2024-01-15 10:05:00 UTC'' ''Harvester started''
            (Aware 63840909900000000 0)],
       components = [JStr ''filebeat''], log_levels = [JStr ''info''],
       loaded_files = [''agent.ndjson''] \<rparr>"

text \<open>
  An entry of the component \<open>filebeat\<close> with a given level, message and instant (the
  correlations read nothing else of an entry).
\<close>

definition event_entry :: "string \<Rightarrow> string \<Rightarrow> datetime \<Rightarrow> log_entry" where
  "event_entry lvl msg t =
     \<lparr> raw = JDict [(''log.level'', JStr lvl), (''service.name'', JStr ''filebeat''),
                     (''message'', JStr msg)],
       line_number = 1, file_name = ''agent.ndjson'', server_name = ''Server A'',
       timestamp = JStr ''N/A'', parsed_timestamp = t, level = JStr lvl,
       component = JStr ''filebeat'', message = JStr msg, full_message = JStr msg \<rparr>"

section \<open>Operations on dynamically typed values\<close>

definition ebind :: "error + 'a \<Rightarrow> ('a \<Rightarrow> error + 'b) \<Rightarrow> error + 'b" where
  "ebind m f = (case m of Inl e \<Rightarrow> Inl e | Inr x \<Rightarrow> f x)"





text \<open>\<^verbatim>\<open>s < t\<close> on two strs: lexicographic by code point.\<close>

fun str_lt :: "string \<Rightarrow> string \<Rightarrow> bool" where
  "str_lt [] [] = False"
| "str_lt [] (y # ys) = True"
| "str_lt (x # xs) [] = False"
| "str_lt (x # xs) (y # ys) =
     ((of_char x :: nat) < of_char y \<or> (x = y \<and> str_lt xs ys))"

text \<open>\<^verbatim>\<open>a < b\<close> on two hashable values: two strs or two numbers, else TypeError.\<close>

definition key_lt :: "json \<Rightarrow> json \<Rightarrow> error + bool" where
  "key_lt a b =
     (case (a, b) of
        (JStr s, JStr t) \<Rightarrow> Inr (str_lt s t)
      | _ \<Rightarrow>
          (case (num_val a, num_val b) of
             (Some x, Some y) \<Rightarrow> Inr (x < y)
           | _ \<Rightarrow> Inl TypeError))"

section \<open>Component analysis\<close>

text \<open>The entry of \<^verbatim>\<open>component_stats\<close> for one component (\<^verbatim>\<open>active_periods\<close> is never used).\<close>

record component_stats =
  first_seen :: "datetime option"
  last_seen :: "datetime option"
  cs_total_logs :: nat
  error_count :: nat
  warning_count :: nat
  info_count :: nat
  status_changes :: "(string \<times> datetime) list"

definition new_component_stats :: component_stats where
  "new_component_stats =
     \<lparr> first_seen = None, last_seen = None, cs_total_logs = 0, error_count = 0,
       warning_count = 0, info_count = 0, status_changes = [] \<rparr>"

text \<open>The \<^verbatim>\<open>defaultdict\<close>: an association list in insertion order, keys by Python equality.\<close>

fun stats_lookup :: "(json \<times> component_stats) list \<Rightarrow> json \<Rightarrow> component_stats" where
  "stats_lookup [] k = new_component_stats"
| "stats_lookup ((k', st) # tab) k = (if key_eq k' k then st else stats_lookup tab k)"

fun stats_store ::
  "(json \<times> component_stats) list \<Rightarrow> json \<Rightarrow> component_stats \<Rightarrow> (json \<times> component_stats) list" where
  "stats_store [] k st = [(k, st)]"
| "stats_store ((k', st') # tab) k st =
     (if key_eq k' k then (k', st) # tab else (k', st') # stats_store tab k st)"

text \<open>Lines 1762 to 1769: the status change that a lower-cased message announces.\<close>

definition status_of :: "string \<Rightarrow> string option" where
  "status_of msg =
     (if contains ''started'' msg \<or> contains ''starting'' msg then Some ''started''
      else if contains ''stopped'' msg \<or> contains ''stopping'' msg then Some ''stopped''
      else if contains ''failed'' msg \<or> contains ''error'' msg then Some ''error''
      else None)"

text \<open>Lines 1741 to 1769 for one entry.\<close>

definition track_entry ::
  "(json \<times> component_stats) list \<Rightarrow> log_entry \<Rightarrow> error + (json \<times> component_stats) list" where
  "track_entry tab l =
     (let comp = component l; ts = parsed_timestamp l
      in ebind (py_lower (level l)) (\<lambda>lvl.
         if \<not> hashable comp then Inl TypeError
         else
           (let st0 = stats_lookup tab comp;
                st1 = st0\<lparr>cs_total_logs := cs_total_logs st0 + 1\<rparr>
            in ebind
                 (if dt_eq ts datetime_min then Inr st1
                  else
                    ebind (case first_seen st1 of
                             None \<Rightarrow> Inr True
                           | Some fs \<Rightarrow> dt_lt ts fs) (\<lambda>earlier.
                    let st2 = (if earlier then st1\<lparr>first_seen := Some ts\<rparr> else st1)
                    in ebind (case last_seen st2 of
                                None \<Rightarrow> Inr True
                              | Some ls \<Rightarrow> dt_gt ts ls) (\<lambda>later.
                       Inr (if later then st2\<lparr>last_seen := Some ts\<rparr> else st2))))
                 (\<lambda>st3.
                    let st4 =
                      (if lvl = ''error'' then st3\<lparr>error_count := error_count st3 + 1\<rparr>
                       else if lvl \<in> set [''warn'', ''warning'']
                         then st3\<lparr>warning_count := warning_count st3 + 1\<rparr>
                       else if lvl = ''info'' then st3\<lparr>info_count := info_count st3 + 1\<rparr>
                       else st3)
                    in ebind (py_lower (full_message l)) (\<lambda>msg.
                       Inr (stats_store tab comp
                              (case status_of msg of
                                 None \<Rightarrow> st4
                               | Some status \<Rightarrow>
                                   st4\<lparr>status_changes := status_changes st4 @ [(status, ts)]\<rparr>)))))))"

fun track_entries ::
  "(json \<times> component_stats) list \<Rightarrow> log_entry list \<Rightarrow> error + (json \<times> component_stats) list" where
  "track_entries tab [] = Inr tab"
| "track_entries tab (l # ls) = ebind (track_entry tab l) (\<lambda>tab'. track_entries tab' ls)"

text \<open>
  \<^verbatim>\<open>a < b\<close> on two tuples \<^verbatim>\<open>(status, timestamp)\<close>: the first components decide unless they
  are equal; then the instants decide, unless they are equal too.
\<close>

definition change_lt :: "string \<times> datetime \<Rightarrow> string \<times> datetime \<Rightarrow> error + bool" where
  "change_lt a b =
     (if fst a \<noteq> fst b then Inr (str_lt (fst a) (fst b))
      else if \<not> dt_eq (snd a) (snd b) then dt_lt (snd a) (snd b)
      else Inr False)"

text \<open>\<^verbatim>\<open>xs[-5:]\<close>.\<close>

definition last_five :: "'a list \<Rightarrow> 'a list" where
  "last_five xs = drop (length xs - 5) xs"

text \<open>
  Lines 1800 to 1806: the status changes that are written for one component, in the
  order written.  Each one is converted to the selected time zone, which can overflow.
\<close>

fun written_changes :: "env \<Rightarrow> (string \<times> datetime) list \<Rightarrow> error + (string \<times> datetime) list" where
  "written_changes ev [] = Inr []"
| "written_changes ev ((status, ts) # cs) =
     (if \<not> dt_eq ts datetime_min then
        ebind (convert_timezone (timezone_var ev) ts) (\<lambda>local_time.
        ebind (written_changes ev cs) (\<lambda>r. Inr ((status, ts) # r)))
      else written_changes ev cs)"

definition reported_changes ::
  "env \<Rightarrow> component_stats \<Rightarrow> error + (string \<times> datetime) list" where
  "reported_changes ev st =
     (if status_changes st \<noteq> [] then
        ebind (py_sorted change_lt (status_changes st)) (\<lambda>sorted_changes.
        written_changes ev (last_five sorted_changes))
      else Inr [])"

text \<open>Lines 1772 to 1808 for one component: the active period, then the status changes.\<close>

definition display_component ::
  "env \<Rightarrow> component_stats \<Rightarrow> error + (string \<times> datetime) list" where
  "display_component ev st =
     ebind (case (first_seen st, last_seen st) of
              (Some fs, Some ls) \<Rightarrow>
                ebind (convert_timezone (timezone_var ev) fs) (\<lambda>first_local.
                ebind (convert_timezone (timezone_var ev) ls) (\<lambda>last_local.
                ebind (dt_sub ls fs) (\<lambda>duration. Inr ())))
            | _ \<Rightarrow> Inr ()) (\<lambda>u. reported_changes ev st)"

fun display_components ::
  "env \<Rightarrow> (json \<times> component_stats) list \<Rightarrow> json list
     \<Rightarrow> error + (json \<times> (string \<times> datetime) list) list" where
  "display_components ev tab [] = Inr []"
| "display_components ev tab (k # ks) =
     ebind (display_component ev (stats_lookup tab k)) (\<lambda>r.
     ebind (display_components ev tab ks) (\<lambda>rs. Inr ((k, r) # rs)))"

text \<open>
  \<^verbatim>\<open>run_component_analysis\<close>: for every component, in sorted order, the status changes
  written under \<open>Status Changes\<close>.  Without logs there is a warning and no analysis.
\<close>

definition run_component_analysis ::
  "env \<Rightarrow> server_group \<Rightarrow> error + (json \<times> (string \<times> datetime) list) list" where
  "run_component_analysis ev g =
     (if logs g = [] then Inr []
      else
        ebind (track_entries [] (logs g)) (\<lambda>tab.
        ebind (py_sorted key_lt (map fst tab)) (\<lambda>ks.
        display_components ev tab ks)))"

section \<open>Health analysis\<close>



















section \<open>Message similarity: \<^verbatim>\<open>difflib.SequenceMatcher\<close>\<close>

text \<open>
  \<^verbatim>\<open>calculate_similarity(str1, str2)\<close> is
  \<^verbatim>\<open>difflib.SequenceMatcher(None, str1, str2).ratio()\<close>.  The matcher is the standard
  library's; this is its algorithm for \<^verbatim>\<open>isjunk=None\<close> and \<^verbatim>\<open>autojunk=True\<close>.

  \<^verbatim>\<open>__chain_b\<close> indexes the second string: \<^verbatim>\<open>b2j[x]\<close> is the ascending list of positions of
  \<open>x\<close> in \<open>b\<close>.  When \<open>b\<close> has 200 characters or more, the characters that occur more than
  \<open>len(b) // 100 + 1\<close> times are popular and lose their entry.  There is no junk.
\<close>

definition popular :: "string \<Rightarrow> char list" where
  "popular b =
     (if 200 \<le> length b
      then filter (\<lambda>x. length b div 100 + 1 < count_list b x) (remdups b)
      else [])"

definition b2j :: "string \<Rightarrow> char \<Rightarrow> nat list" where
  "b2j b x = (if x \<in> set (popular b) then [] else filter (\<lambda>j. b ! j = x) [0..<length b])"

text \<open>
  The inner loop of \<^verbatim>\<open>find_longest_match\<close> for one \<open>i\<close>, over the positions \<open>j\<close> of
  \<^verbatim>\<open>a[i]\<close> in \<open>b\<close>.  \<open>j2len\<close> and \<open>newj2len\<close> are dicts read with \<^verbatim>\<open>get(j-1, 0)\<close> only, so they
  are functions with the value 0 off their keys; the key \<open>-1\<close> is never stored.  The
  best block is \<open>(besti, bestj, bestsize)\<close>; \<^verbatim>\<open>i-k+1\<close> is \<open>Suc i - k\<close> because \<open>k\<close> never
  exceeds \<open>i + 1\<close> (lemma \<open>find_longest_match_in_range\<close> below).
\<close>

fun row_loop ::
  "nat \<Rightarrow> nat \<Rightarrow> nat \<Rightarrow> (nat \<Rightarrow> nat) \<Rightarrow> nat list \<Rightarrow> (nat \<Rightarrow> nat) \<times> nat \<times> nat \<times> nat
     \<Rightarrow> (nat \<Rightarrow> nat) \<times> nat \<times> nat \<times> nat" where
  "row_loop i blo bhi j2len [] st = st"
| "row_loop i blo bhi j2len (j # js) (newj2len, besti, bestj, bestsize) =
     (if j < blo then row_loop i blo bhi j2len js (newj2len, besti, bestj, bestsize)
      else if bhi \<le> j then (newj2len, besti, bestj, bestsize)
      else
        (let k = (if j = 0 then 0 else j2len (j - 1)) + 1
         in row_loop i blo bhi j2len js
              (newj2len(j := k),
               if bestsize < k then (Suc i - k, Suc j - k, k) else (besti, bestj, bestsize))))"

text \<open>The outer loop, \<^verbatim>\<open>for i in range(alo, ahi)\<close>, from \<open>i\<close> on.\<close>

function rows ::
  "string \<Rightarrow> (char \<Rightarrow> nat list) \<Rightarrow> nat \<Rightarrow> nat \<Rightarrow> nat \<Rightarrow> nat \<Rightarrow> (nat \<Rightarrow> nat) \<times> nat \<times> nat \<times> nat
     \<Rightarrow> nat \<times> nat \<times> nat" where
  "rows a idx blo bhi i ahi (j2len, best) =
     (if i < ahi then
        (case row_loop i blo bhi j2len (idx (a ! i)) (\<lambda>j. 0, best) of
           (newj2len, best') \<Rightarrow> rows a idx blo bhi (Suc i) ahi (newj2len, best'))
      else best)"
  by pat_completeness auto
termination
  by (relation "measure (\<lambda>(a, idx, blo, bhi, i, ahi, st). ahi - i)") auto

text \<open>
  The two loops that extend the block over equal neighbours that are not junk, to the
  left and to the right.  (The two loops after them extend over junk, of which there is
  none.)
\<close>

function extend_left :: "string \<Rightarrow> string \<Rightarrow> nat \<Rightarrow> nat \<Rightarrow> nat \<times> nat \<times> nat \<Rightarrow> nat \<times> nat \<times> nat" where
  "extend_left a b alo blo (besti, bestj, bestsize) =
     (if alo < besti \<and> blo < bestj \<and> a ! (besti - 1) = b ! (bestj - 1)
      then extend_left a b alo blo (besti - 1, bestj - 1, bestsize + 1)
      else (besti, bestj, bestsize))"
  by pat_completeness auto
termination
  by (relation "measure (\<lambda>(a, b, alo, blo, besti, bestj, bestsize). besti)") auto

function extend_right :: "string \<Rightarrow> string \<Rightarrow> nat \<Rightarrow> nat \<Rightarrow> nat \<times> nat \<times> nat \<Rightarrow> nat \<times> nat \<times> nat" where
  "extend_right a b ahi bhi (besti, bestj, bestsize) =
     (if besti + bestsize < ahi \<and> bestj + bestsize < bhi
         \<and> a ! (besti + bestsize) = b ! (bestj + bestsize)
      then extend_right a b ahi bhi (besti, bestj, bestsize + 1)
      else (besti, bestj, bestsize))"
  by pat_completeness auto
termination
  by (relation "measure (\<lambda>(a, b, ahi, bhi, besti, bestj, bestsize). ahi - (besti + bestsize))")
     auto

definition find_longest_match ::
  "string \<Rightarrow> string \<Rightarrow> (char \<Rightarrow> nat list) \<Rightarrow> nat \<Rightarrow> nat \<Rightarrow> nat \<Rightarrow> nat \<Rightarrow> nat \<times> nat \<times> nat" where
  "find_longest_match a b idx alo ahi blo bhi =
     extend_right a b ahi bhi
       (extend_left a b alo blo (rows a idx blo bhi alo ahi (\<lambda>j. 0, alo, blo, 0)))"

text \<open>
  The block that \<^verbatim>\<open>find_longest_match\<close> returns lies in the range of \<open>a\<close> that it was
  given; the recursion of \<^verbatim>\<open>get_matching_blocks\<close> terminates for that reason.
\<close>

declare rows.simps [simp del] extend_left.simps [simp del] extend_right.simps [simp del]

lemma row_loop_step:
  "\<not> j < blo \<Longrightarrow> \<not> bhi \<le> j \<Longrightarrow>
   row_loop i blo bhi j2len (j # js) (new, bi, bj, bs) =
     row_loop i blo bhi j2len js
       (new(j := (if j = 0 then 0 else j2len (j - 1)) + 1),
        if bs < (if j = 0 then 0 else j2len (j - 1)) + 1
        then (Suc i - ((if j = 0 then 0 else j2len (j - 1)) + 1),
              Suc j - ((if j = 0 then 0 else j2len (j - 1)) + 1),
              (if j = 0 then 0 else j2len (j - 1)) + 1)
        else (bi, bj, bs))"
  by (simp add: Let_def)

lemma row_loop_bounds:
  assumes "row_loop i blo bhi j2len js (new, bi, bj, bs) = (new', bi', bj', bs')"
    and "\<forall>j. j2len j \<le> i - alo" and "alo \<le> i"
    and "alo \<le> bi" and "bi + bs \<le> Suc i" and "\<forall>j. new j \<le> Suc i - alo"
  shows "alo \<le> bi' \<and> bi' + bs' \<le> Suc i \<and> (\<forall>j. new' j \<le> Suc i - alo)"
  using assms
proof (induction js arbitrary: new bi bj bs)
  case Nil
  then show ?case by simp
next
  case (Cons j js)
  show ?case
  proof (cases "j < blo")
    case True
    with Cons.prems Cons.IH [of new bi bj bs] show ?thesis by simp
  next
    case nlo: False
    show ?thesis
    proof (cases "bhi \<le> j")
      case True
      with nlo Cons.prems show ?thesis by simp
    next
      case False
      define k where "k = (if j = 0 then 0 else j2len (j - 1)) + 1"
      have "j2len (j - 1) \<le> i - alo"
        using Cons.prems(2) by blast
      then have k: "k \<le> Suc i - alo"
        using Cons.prems(3) by (simp add: k_def Suc_diff_le)
      have step: "row_loop i blo bhi j2len js
            (new(j := k), if bs < k then (Suc i - k, Suc j - k, k) else (bi, bj, bs))
          = (new', bi', bj', bs')"
        unfolding k_def using Cons.prems(1) by (simp only: row_loop_step [OF nlo False])
      have p3: "\<forall>ja. (new(j := k)) ja \<le> Suc i - alo"
        using k Cons.prems(6) by simp
      show ?thesis
      proof (cases "bs < k")
        case True
        have p1: "alo \<le> Suc i - k" using k Cons.prems(3) by arith
        have p2: "Suc i - k + k \<le> Suc i" using k by arith
        from step True have "row_loop i blo bhi j2len js (new(j := k), Suc i - k, Suc j - k, k)
            = (new', bi', bj', bs')" by simp
        from Cons.IH [OF this Cons.prems(2,3) p1 p2 p3] show ?thesis .
      next
        case False
        from step False have "row_loop i blo bhi j2len js (new(j := k), bi, bj, bs)
            = (new', bi', bj', bs')" by simp
        from Cons.IH [OF this Cons.prems(2,3,4,5) p3] show ?thesis .
      qed
    qed
  qed
qed

lemma rows_bounds:
  "rows a idx blo bhi i ahi st = (bi', bj', bs') \<Longrightarrow> \<forall>j. fst st j \<le> i - alo \<Longrightarrow> alo \<le> i \<Longrightarrow>
   alo \<le> fst (snd st) \<Longrightarrow> fst (snd st) + snd (snd (snd st)) \<le> i \<Longrightarrow>
   alo \<le> bi' \<and> bi' + bs' \<le> max i ahi"
proof (induction a idx blo bhi i ahi st rule: rows.induct)
  case (1 a idx blo bhi i ahi j2len best)
  obtain bi bj bs where best: "best = (bi, bj, bs)" by (cases best)
  show ?case
  proof (cases "i < ahi")
    case False
    with "1.prems" best show ?thesis by (simp add: rows.simps)
  next
    case True
    obtain new bi1 bj1 bs1
      where rl: "row_loop i blo bhi j2len (idx (a ! i)) (\<lambda>j. 0, bi, bj, bs) = (new, bi1, bj1, bs1)"
      by (metis prod_cases4)
    have b1: "alo \<le> bi1 \<and> bi1 + bs1 \<le> Suc i \<and> (\<forall>j. new j \<le> Suc i - alo)"
      using row_loop_bounds [OF rl, of alo] "1.prems" best by simp
    have r: "rows a idx blo bhi (Suc i) ahi (new, bi1, bj1, bs1) = (bi', bj', bs')"
      using "1.prems"(1) True rl best by (simp add: rows.simps)
    have "alo \<le> bi' \<and> bi' + bs' \<le> max (Suc i) ahi"
      using "1.IH" [OF True rl [symmetric, unfolded best [symmetric]] r [unfolded best]] b1 "1.prems"
      by simp
    then show ?thesis using True by simp
  qed
qed

lemma extend_left_bounds:
  "extend_left a b alo blo st = (bi', bj', bs') \<Longrightarrow> alo \<le> fst st \<Longrightarrow>
   alo \<le> bi' \<and> bi' + bs' = fst st + snd (snd st) \<and> snd (snd st) \<le> bs'"
proof (induction a b alo blo st rule: extend_left.induct)
  case (1 a b alo blo besti bestj bestsize)
  show ?case
  proof (cases "alo < besti \<and> blo < bestj \<and> a ! (besti - 1) = b ! (bestj - 1)")
    case True
    then have "extend_left a b alo blo (besti - 1, bestj - 1, bestsize + 1) = (bi', bj', bs')"
      using "1.prems"(1) by (simp add: extend_left.simps [of a b alo blo besti])
    moreover have "alo \<le> fst (besti - 1, bestj - 1, bestsize + 1)"
      using True by auto
    ultimately have "alo \<le> bi' \<and> bi' + bs' = (besti - 1) + (bestsize + 1) \<and> bestsize + 1 \<le> bs'"
      using "1.IH" [OF True] by simp
    then show ?thesis using True by auto
  next
    case False
    then show ?thesis
      using "1.prems" by (auto simp: extend_left.simps [of a b alo blo besti])
  qed
qed

lemma extend_right_bounds:
  "extend_right a b ahi bhi st = (bi', bj', bs') \<Longrightarrow> fst st + snd (snd st) \<le> ahi \<Longrightarrow>
   bi' = fst st \<and> bi' + bs' \<le> ahi \<and> snd (snd st) \<le> bs'"
proof (induction a b ahi bhi st rule: extend_right.induct)
  case (1 a b ahi bhi besti bestj bestsize)
  show ?case
  proof (cases "besti + bestsize < ahi \<and> bestj + bestsize < bhi
      \<and> a ! (besti + bestsize) = b ! (bestj + bestsize)")
    case True
    then have "extend_right a b ahi bhi (besti, bestj, bestsize + 1) = (bi', bj', bs')"
      using "1.prems"(1) by (simp add: extend_right.simps [of a b ahi bhi besti])
    from "1.IH" [OF True this] True show ?thesis by simp
  next
    case False
    then show ?thesis
      using "1.prems" by (auto simp: extend_right.simps [of a b ahi bhi besti])
  qed
qed

lemma find_longest_match_a_range:
  assumes "find_longest_match a b idx alo ahi blo bhi = (i, j, k)" and "k \<noteq> 0"
  shows "alo \<le> i \<and> i + k \<le> ahi"
proof -
  obtain i1 j1 k1 where r: "rows a idx blo bhi alo ahi (\<lambda>j. 0, alo, blo, 0) = (i1, j1, k1)"
    by (metis prod_cases3)
  obtain i2 j2 k2 where l: "extend_left a b alo blo (i1, j1, k1) = (i2, j2, k2)"
    by (metis prod_cases3)
  have e: "extend_right a b ahi bhi (i2, j2, k2) = (i, j, k)"
    using assms(1) r l by (simp add: find_longest_match_def)
  have b1: "alo \<le> i1 \<and> i1 + k1 \<le> max alo ahi"
    using rows_bounds [OF r, of alo] by simp
  have b2: "alo \<le> i2 \<and> i2 + k2 = i1 + k1"
    using extend_left_bounds [OF l] b1 by simp
  show ?thesis
  proof (cases "alo \<le> ahi")
    case True
    then have "i2 + k2 \<le> ahi" using b1 b2 by simp
    from extend_right_bounds [OF e] this b2 show ?thesis by simp
  next
    case False
    then have "(i1, j1, k1) = (alo, blo, 0)"
      using r by (simp add: rows.simps)
    then have "(i2, j2, k2) = (alo, blo, 0)"
      using l by (simp add: extend_left.simps)
    then have "(i, j, k) = (alo, blo, 0)"
      using e False by (simp add: extend_right.simps)
    with assms(2) show ?thesis by simp
  qed
qed

text \<open>
  \<^verbatim>\<open>get_matching_blocks\<close>: the longest block of the range, then the blocks to its left
  and to its right.  The source keeps the ranges still to do in a list and sorts the
  blocks at the end; this is the sorted list, before adjacent blocks are merged and the
  closing block of size 0 is added, neither of which changes the sum of the sizes.
\<close>

function matching_blocks ::
  "string \<Rightarrow> string \<Rightarrow> (char \<Rightarrow> nat list) \<Rightarrow> nat \<Rightarrow> nat \<Rightarrow> nat \<Rightarrow> nat \<Rightarrow> (nat \<times> nat \<times> nat) list" where
  "matching_blocks a b idx alo ahi blo bhi =
     (case find_longest_match a b idx alo ahi blo bhi of
        (i, j, k) \<Rightarrow>
          (if k \<noteq> 0 then
             (if alo < i \<and> blo < j then matching_blocks a b idx alo i blo j else [])
             @ [(i, j, k)]
             @ (if i + k < ahi \<and> j + k < bhi then matching_blocks a b idx (i + k) ahi (j + k) bhi
                else [])
           else []))"
  by pat_completeness auto
termination
proof (relation "measure (\<lambda>(a, b, idx, alo, ahi, blo, bhi). ahi - alo)")
  show "wf (measure (\<lambda>(a, b, idx, alo, ahi, blo, bhi). ahi - alo))"
    by simp
next
  fix a b idx alo ahi blo bhi i y j k
  assume "(i, y) = find_longest_match a b idx alo ahi blo bhi" "(j, k) = y" "k \<noteq> 0"
    "alo < i \<and> blo < j"
  then have "find_longest_match a b idx alo ahi blo bhi = (i, j, k)" by simp
  from find_longest_match_a_range [OF this \<open>k \<noteq> 0\<close>] \<open>k \<noteq> 0\<close> \<open>alo < i \<and> blo < j\<close>
  have "i - alo < ahi - alo" by arith
  then show "((a, b, idx, alo, i, blo, j), (a, b, idx, alo, ahi, blo, bhi))
      \<in> measure (\<lambda>(a, b, idx, alo, ahi, blo, bhi). ahi - alo)"
    by simp
next
  fix a b idx alo ahi blo bhi i y j k
  assume "(i, y) = find_longest_match a b idx alo ahi blo bhi" "(j, k) = y" "k \<noteq> 0"
    "i + k < ahi \<and> j + k < bhi"
  then have "find_longest_match a b idx alo ahi blo bhi = (i, j, k)" by simp
  from find_longest_match_a_range [OF this \<open>k \<noteq> 0\<close>] \<open>k \<noteq> 0\<close> \<open>i + k < ahi \<and> j + k < bhi\<close>
  have "ahi - (i + k) < ahi - alo" by arith
  then show "((a, b, idx, i + k, ahi, j + k, bhi), (a, b, idx, alo, ahi, blo, bhi))
      \<in> measure (\<lambda>(a, b, idx, alo, ahi, blo, bhi). ahi - alo)"
    by simp
qed

declare matching_blocks.simps [simp del]

text \<open>
  \<^verbatim>\<open>ratio()\<close> and \<^verbatim>\<open>_calculate_ratio\<close>: \<^verbatim>\<open>2.0 * matches / length\<close>, and 1.0 for two empty
  strings.  The quotient is the exact rational here; Python rounds it to a double.
\<close>

definition ratio :: "string \<Rightarrow> string \<Rightarrow> rat" where
  "ratio a b =
     (let matches = sum_list (map (\<lambda>(i, j, k). k)
                       (matching_blocks a b (b2j b) 0 (length a) 0 (length b)));
          len = length a + length b
      in if len \<noteq> 0 then 2 * of_nat matches / of_nat len else 1)"

definition calculate_similarity :: "string \<Rightarrow> string \<Rightarrow> rat" where
  "calculate_similarity str1 str2 = ratio str1 str2"


text \<open>
  Notions for the proof that a string matches itself in one block: the length that the
  inner loop stores at \<open>j\<close>; the number of characters up to position \<open>i\<close>, with no
  popular one among them, that end at \<open>i\<close>; and what holds before the outer loop
  reaches \<open>i\<close> when both strings are \<open>a\<close>: the best block lies on the diagonal, and the
  stored lengths are bounded by these runs.
\<close>

definition next_len :: "(nat \<Rightarrow> nat) \<Rightarrow> nat \<Rightarrow> nat" where
  "next_len j2len j = (if j = 0 then 0 else j2len (j - 1)) + 1"

fun run_len :: "string \<Rightarrow> char set \<Rightarrow> nat \<Rightarrow> nat" where
  "run_len a P 0 = (if a ! 0 \<in> P then 0 else 1)"
| "run_len a P (Suc i) = (if a ! Suc i \<in> P then 0 else Suc (run_len a P i))"

definition diag_inv :: "string \<Rightarrow> nat \<Rightarrow> (nat \<Rightarrow> nat) \<times> nat \<times> nat \<times> nat \<Rightarrow> bool" where
  "diag_inv a i st \<longleftrightarrow>
     (case st of (j2len, bi, bj, bs) \<Rightarrow>
        bi = bj
      \<and> (\<forall>j < length a. j2len j \<le> run_len a (set (popular a)) j)
      \<and> (\<forall>j. j2len j \<le> (if i = 0 then 0 else run_len a (set (popular a)) (i - 1)))
      \<and> (0 < i \<longrightarrow> j2len (i - 1) = run_len a (set (popular a)) (i - 1))
      \<and> (\<forall>i' < i. run_len a (set (popular a)) i' \<le> bs))"

section \<open>The comparison engine\<close>

subsection \<open>Message similarity between two log sets\<close>

text \<open>One element of the list that \<^verbatim>\<open>find_similar_messages\<close> returns.\<close>

record similarity_correlation =
  log1 :: log_entry
  log2 :: log_entry
  similarity :: rat
  time_diff_minutes :: rat

text \<open>
  \<^verbatim>\<open>[log for log in logs if log['level'].lower() in ['error', 'warn', 'warning']]\<close>: it
  raises AttributeError at the first level that is not a str.
\<close>

fun important_logs :: "log_entry list \<Rightarrow> error + log_entry list" where
  "important_logs [] = Inr []"
| "important_logs (l # ls) =
     ebind (py_lower (level l)) (\<lambda>lvl.
     ebind (important_logs ls) (\<lambda>r.
     Inr (if lvl \<in> set [''error'', ''warn'', ''warning''] then l # r else r)))"

text \<open>
  The inner loop (lines 68 to 90) for one \<open>l1\<close>.  \<^verbatim>\<open>total_seconds() / 60\<close> is the difference
  in microseconds divided by 60000000, an exact rational here.
\<close>

fun similar_to :: "rat \<Rightarrow> rat \<Rightarrow> log_entry \<Rightarrow> log_entry list \<Rightarrow> error + similarity_correlation list" where
  "similar_to similarity_threshold time_window_minutes l1 [] = Inr []"
| "similar_to similarity_threshold time_window_minutes l1 (l2 # ls) =
     (if dt_eq (parsed_timestamp l2) datetime_min
      then similar_to similarity_threshold time_window_minutes l1 ls
      else
        ebind (dt_sub (parsed_timestamp l1) (parsed_timestamp l2)) (\<lambda>d.
        let time_diff = \<bar>of_int d\<bar> / 60000000
        in if time_diff > time_window_minutes
           then similar_to similarity_threshold time_window_minutes l1 ls
           else
             ebind (py_lower (full_message l1)) (\<lambda>m1.
             ebind (py_lower (full_message l2)) (\<lambda>m2.
             let sim = calculate_similarity m1 m2
             in ebind (similar_to similarity_threshold time_window_minutes l1 ls) (\<lambda>r.
                Inr (if sim \<ge> similarity_threshold
                     then \<lparr> log1 = l1, log2 = l2, similarity = sim,
                            time_diff_minutes = time_diff \<rparr> # r
                     else r))))))"

text \<open>The outer loop (lines 64 to 90).\<close>

fun similar_pairs ::
  "rat \<Rightarrow> rat \<Rightarrow> log_entry list \<Rightarrow> log_entry list \<Rightarrow> error + similarity_correlation list" where
  "similar_pairs similarity_threshold time_window_minutes [] ls2 = Inr []"
| "similar_pairs similarity_threshold time_window_minutes (l1 # ls1) ls2 =
     (if dt_eq (parsed_timestamp l1) datetime_min
      then similar_pairs similarity_threshold time_window_minutes ls1 ls2
      else
        ebind (similar_to similarity_threshold time_window_minutes l1 ls2) (\<lambda>r1.
        ebind (similar_pairs similarity_threshold time_window_minutes ls1 ls2) (\<lambda>r.
        Inr (r1 @ r))))"

text \<open>
  \<^verbatim>\<open>sorted(correlations, key=lambda x: x['similarity'], reverse=True)\<close>: descending, and
  stable (elements of equal similarity keep their order), which is the stable ascending
  sort by the negated similarity.  Comparing two numbers never raises.
\<close>

definition find_similar_messages ::
  "log_entry list \<Rightarrow> log_entry list \<Rightarrow> rat \<Rightarrow> rat \<Rightarrow> error + similarity_correlation list" where
  "find_similar_messages logs1 logs2 similarity_threshold time_window_minutes =
     ebind (important_logs logs1) (\<lambda>important_logs1.
     ebind (important_logs logs2) (\<lambda>important_logs2.
     ebind (similar_pairs similarity_threshold time_window_minutes important_logs1
              important_logs2) (\<lambda>correlations.
     Inr (sort_key (\<lambda>x. - similarity x) correlations))))"

subsection \<open>Timeline correlation between two log sets\<close>

record timeline_correlation =
  time_bucket :: datetime
  server1_events :: nat
  server2_events :: nat
  server1_errors :: nat
  server2_errors :: nat
  time_offset_minutes :: int

text \<open>\<^verbatim>\<open>int(time_window_minutes)\<close> on a float: the fraction is cut off, towards zero.\<close>

definition py_int :: "rat \<Rightarrow> int" where
  "py_int x = (if 0 \<le> x then \<lfloor>x\<rfloor> else \<lceil>x\<rceil>)"

text \<open>
  \<^verbatim>\<open>get_time_bucket(timestamp)\<close> with its default bucket size of one minute: seconds and
  microseconds of the wall-clock reading become 0; the \<^verbatim>\<open>timedelta\<close> subtracted is
  \<^verbatim>\<open>minute % 1\<close> minutes, that is nothing.
\<close>

fun get_time_bucket :: "datetime \<Rightarrow> datetime" where
  "get_time_bucket (Naive w) = Naive (w - w mod 60000000)"
| "get_time_bucket (Aware w off) = Aware (w - w mod 60000000) off"

text \<open>
  A \<^verbatim>\<open>defaultdict(list)\<close> keyed by instants: an association list in insertion order,
  whose keys are looked up by Python equality.
\<close>

fun bucket_append ::
  "(datetime \<times> log_entry list) list \<Rightarrow> datetime \<Rightarrow> log_entry
     \<Rightarrow> (datetime \<times> log_entry list) list" where
  "bucket_append [] k l = [(k, [l])]"
| "bucket_append ((k', ls) # tab) k l =
     (if dt_eq k' k then (k', ls @ [l]) # tab else (k', ls) # bucket_append tab k l)"

fun bucket_find :: "(datetime \<times> log_entry list) list \<Rightarrow> datetime \<Rightarrow> log_entry list option" where
  "bucket_find [] k = None"
| "bucket_find ((k', ls) # tab) k = (if dt_eq k' k then Some ls else bucket_find tab k)"

text \<open>Lines 112 to 120: the buckets of one log set, from the table built so far.\<close>

fun make_buckets ::
  "(datetime \<times> log_entry list) list \<Rightarrow> log_entry list \<Rightarrow> (datetime \<times> log_entry list) list" where
  "make_buckets tab [] = tab"
| "make_buckets tab (l # ls) =
     (if \<not> dt_eq (parsed_timestamp l) datetime_min
      then make_buckets (bucket_append tab (get_time_bucket (parsed_timestamp l)) l) ls
      else make_buckets tab ls)"

text \<open>\<^verbatim>\<open>[log for log in bucket_logs if log['level'].lower() == 'error']\<close>.\<close>

fun bucket_errors :: "log_entry list \<Rightarrow> error + log_entry list" where
  "bucket_errors [] = Inr []"
| "bucket_errors (l # ls) =
     ebind (py_lower (level l)) (\<lambda>lvl.
     ebind (bucket_errors ls) (\<lambda>r. Inr (if lvl = ''error'' then l # r else r)))"

text \<open>
  The inner loop (lines 125 to 144) for one bucket of the first set, over the offsets
  still to try.  Adding the offset can leave the range of \<^verbatim>\<open>datetime\<close> (OverflowError).
\<close>

fun correlate_offsets ::
  "(datetime \<times> log_entry list) list \<Rightarrow> datetime \<Rightarrow> log_entry list \<Rightarrow> int list
     \<Rightarrow> error + timeline_correlation list" where
  "correlate_offsets buckets2 bucket_time bucket1_logs [] = Inr []"
| "correlate_offsets buckets2 bucket_time bucket1_logs (minutes_offset # offs) =
     ebind (dt_add_minutes bucket_time minutes_offset) (\<lambda>check_bucket.
     ebind (case bucket_find buckets2 check_bucket of
              None \<Rightarrow> Inr []
            | Some bucket2_logs \<Rightarrow>
                ebind (bucket_errors bucket1_logs) (\<lambda>bucket1_errors.
                ebind (bucket_errors bucket2_logs) (\<lambda>bucket2_errors.
                Inr (if bucket1_errors \<noteq> [] \<and> bucket2_errors \<noteq> []
                     then [\<lparr> time_bucket = bucket_time,
                              server1_events = length bucket1_logs,
                              server2_events = length bucket2_logs,
                              server1_errors = length bucket1_errors,
                              server2_errors = length bucket2_errors,
                              time_offset_minutes = minutes_offset \<rparr>]
                     else [])))) (\<lambda>found.
     ebind (correlate_offsets buckets2 bucket_time bucket1_logs offs) (\<lambda>r.
     Inr (found @ r))))"

text \<open>The outer loop (line 123) over the buckets of the first set, in insertion order.\<close>

fun correlate_buckets ::
  "(datetime \<times> log_entry list) list \<Rightarrow> int list \<Rightarrow> (datetime \<times> log_entry list) list
     \<Rightarrow> error + timeline_correlation list" where
  "correlate_buckets buckets2 offs [] = Inr []"
| "correlate_buckets buckets2 offs ((bucket_time, bucket1_logs) # rest) =
     ebind (correlate_offsets buckets2 bucket_time bucket1_logs offs) (\<lambda>r1.
     ebind (correlate_buckets buckets2 offs rest) (\<lambda>r. Inr (r1 @ r)))"

text \<open>\<^verbatim>\<open>range(-time_window_int, time_window_int + 1)\<close> is \<open>[- n..n]\<close>.\<close>

definition find_timeline_correlations ::
  "log_entry list \<Rightarrow> log_entry list \<Rightarrow> rat \<Rightarrow> error + timeline_correlation list" where
  "find_timeline_correlations logs1 logs2 time_window_minutes =
     (let time_window_int = py_int time_window_minutes;
          buckets1 = make_buckets [] logs1;
          buckets2 = make_buckets [] logs2
      in correlate_buckets buckets2 [- time_window_int..time_window_int] buckets1)"

text \<open>
  What the claims about the correlations speak of.  A level is an error, or important,
  when it is a str that in lower case is \<open>error\<close>, or one of \<open>error\<close>, \<open>warn\<close> and
  \<open>warning\<close>.  A log set has an error in a bucket when one of its entries has a real
  instant (not the sentinel) in that one-minute bucket and an error level; a bucket is
  given by the kind of its instants (aware or naive) and its position on the time line.
\<close>

definition is_error_level :: "json \<Rightarrow> bool" where
  "is_error_level v \<longleftrightarrow> (\<exists>s. v = JStr s \<and> lower s = ''error'')"

definition is_important_level :: "json \<Rightarrow> bool" where
  "is_important_level v \<longleftrightarrow> (\<exists>s. v = JStr s \<and> lower s \<in> {''error'', ''warn'', ''warning''})"

definition in_bucket :: "log_entry \<Rightarrow> bool \<Rightarrow> int \<Rightarrow> bool" where
  "in_bucket l aware pos \<longleftrightarrow>
     \<not> dt_eq (parsed_timestamp l) datetime_min
   \<and> is_aware (parsed_timestamp l) = aware
   \<and> instant (get_time_bucket (parsed_timestamp l)) = pos"

definition error_in_bucket :: "log_entry list \<Rightarrow> bool \<Rightarrow> int \<Rightarrow> bool" where
  "error_in_bucket ls aware pos \<longleftrightarrow>
     (\<exists>l \<in> set ls. in_bucket l aware pos \<and> is_error_level (level l))"

text \<open>
  What a similarity correlation of two log sets under a threshold and a window has to be:
  a pair of one entry of each set, both with an important level and a real instant, not
  further apart than the window, with the similarity of their lower-cased messages, which
  is at least the threshold.
\<close>

definition valid_similarity_correlation ::
  "log_entry list \<Rightarrow> log_entry list \<Rightarrow> rat \<Rightarrow> rat \<Rightarrow> similarity_correlation \<Rightarrow> bool" where
  "valid_similarity_correlation logs1 logs2 similarity_threshold time_window_minutes c \<longleftrightarrow>
     log1 c \<in> set logs1 \<and> log2 c \<in> set logs2
   \<and> is_important_level (level (log1 c)) \<and> is_important_level (level (log2 c))
   \<and> \<not> dt_eq (parsed_timestamp (log1 c)) datetime_min
   \<and> \<not> dt_eq (parsed_timestamp (log2 c)) datetime_min
   \<and> (\<exists>d. dt_sub (parsed_timestamp (log1 c)) (parsed_timestamp (log2 c)) = Inr d
          \<and> time_diff_minutes c = \<bar>of_int d\<bar> / 60000000
          \<and> \<bar>of_int d\<bar> / 60000000 \<le> time_window_minutes)
   \<and> (\<exists>m1 m2. full_message (log1 c) = JStr m1 \<and> full_message (log2 c) = JStr m2
          \<and> similarity c = calculate_similarity (lower m1) (lower m2))
   \<and> similarity_threshold \<le> similarity c"

text \<open>
  Two instants are equal for Python exactly when they are of one kind and at one
  position; \<open>bucket_id\<close> is that pair, and \<open>keyed\<close> is a bucket table with its keys
  replaced by their pairs.  \<open>emitted cs aware pos off\<close> counts the correlations of \<open>cs\<close>
  that are for the bucket \<open>(aware, pos)\<close> of the first set and the offset \<open>off\<close>.
\<close>

definition bucket_id :: "datetime \<Rightarrow> bool \<times> int" where
  "bucket_id k = (is_aware k, instant k)"

definition keyed :: "(datetime \<times> 'a) list \<Rightarrow> ((bool \<times> int) \<times> 'a) list" where
  "keyed tab = map (\<lambda>(k, v). (bucket_id k, v)) tab"

definition emitted :: "timeline_correlation list \<Rightarrow> bool \<Rightarrow> int \<Rightarrow> int \<Rightarrow> nat" where
  "emitted cs aware pos off =
     length (filter (\<lambda>c. is_aware (time_bucket c) = aware \<and> instant (time_bucket c) = pos
                          \<and> time_offset_minutes c = off) cs)"

text \<open>
  For the proof: the entries of a log set that fall into a bucket, in order; what it
  means for a bucket table to be that of the entries seen so far; and the condition under
  which the inner loop emits a correlation for a bucket of the first set and an offset.
\<close>

definition bucket_logs :: "log_entry list \<Rightarrow> bool \<times> int \<Rightarrow> log_entry list" where
  "bucket_logs ls q =
     filter (\<lambda>l. \<not> dt_eq (parsed_timestamp l) datetime_min
                  \<and> bucket_id (get_time_bucket (parsed_timestamp l)) = q) ls"

definition buckets_of :: "(datetime \<times> log_entry list) list \<Rightarrow> log_entry list \<Rightarrow> bool" where
  "buckets_of tab seen \<longleftrightarrow>
     distinct (map fst (keyed tab))
   \<and> (\<forall>q. map_of (keyed tab) q
            = (if bucket_logs seen q = [] then None else Some (bucket_logs seen q)))"

definition qualifies ::
  "(datetime \<times> log_entry list) list \<Rightarrow> datetime \<Rightarrow> log_entry list \<Rightarrow> int \<Rightarrow> bool" where
  "qualifies B b L off \<longleftrightarrow>
     (\<exists>l \<in> set L. is_error_level (level l))
   \<and> (\<exists>L2. map_of (keyed B) (is_aware b, instant b + off * 60000000) = Some L2
          \<and> (\<exists>l \<in> set L2. is_error_level (level l)))"

section \<open>Facts about sorting and loading\<close>

lemma insert_sorted_mset:
  "insert_sorted lt x ys = Inr r \<Longrightarrow> mset r = add_mset x (mset ys)"
proof (induction ys arbitrary: r)
  case Nil
  then show ?case by auto
next
  case (Cons y ys)
  then show ?case
    by (auto split: sum.splits bool.splits if_splits)
qed

lemma sort_into_mset:
  "sort_into lt acc xs = Inr r \<Longrightarrow> mset r = mset acc + mset xs"
proof (induction xs arbitrary: acc r)
  case Nil
  then show ?case by simp
next
  case (Cons x xs)
  then show ?case
    by (auto split: sum.splits dest!: insert_sorted_mset)
qed

lemma py_sorted_mset:
  "py_sorted lt xs = Inr r \<Longrightarrow> mset r = mset xs"
  unfolding py_sorted_def by (drule sort_into_mset) simp

lemma sort_by_timestamp_mset:
  "sort_by_timestamp xs = Inr r \<Longrightarrow> mset r = mset xs"
  unfolding sort_by_timestamp_def by (rule py_sorted_mset)

lemma load_lines_malformed:
  "\<forall>l \<in> set lines. l = Malformed \<or> l = Blank \<Longrightarrow>
   load_lines ev fname sname n lines g new_logs = (None, g, new_logs)"
proof (induction lines arbitrary: n)
  case Nil
  then show ?case by simp
next
  case (Cons l ls)
  then show ?case by (cases l) auto
qed

lemma add_log_loaded_files: "loaded_files (snd (add_log g p)) = loaded_files g"
  by (simp add: add_log_def Let_def split: sum.splits)

lemma load_lines_loaded_files:
  "loaded_files (fst (snd (load_lines ev fname sname n lines g new_logs))) = loaded_files g"
proof (induction lines arbitrary: n g new_logs)
  case Nil
  then show ?case by simp
next
  case (Cons l ls)
  show ?case
  proof (cases l)
    case Blank
    with Cons show ?thesis by simp
  next
    case Malformed
    with Cons show ?thesis by simp
  next
    case (Doc d)
    show ?thesis
    proof (cases "process_log_entry ev d n fname sname")
      case (Inl e)
      with Doc show ?thesis by simp
    next
      case (Inr p)
      obtain r g' where a: "add_log g p = (r, g')" by (cases "add_log g p")
      then have lf: "loaded_files g' = loaded_files g"
        using add_log_loaded_files [of g p] by simp
      show ?thesis
      proof (cases r)
        case None
        with Doc Inr a lf Cons.IH [of "Suc n" g' "new_logs @ [p]"] show ?thesis by simp
      next
        case (Some e)
        with Doc Inr a lf show ?thesis by simp
      qed
    qed
  qed
qed

lemma load_file_thread_loaded_files:
  "loaded_files (snd (load_file_thread ev g fname lines)) = str_set_add (loaded_files g) fname"
proof -
  let ?g1 = "g\<lparr>loaded_files := str_set_add (loaded_files g) fname\<rparr>"
  obtain r g2 nl where l: "load_lines ev fname (name g) 1 lines ?g1 [] = (r, g2, nl)"
    by (cases "load_lines ev fname (name g) 1 lines ?g1 []") auto
  have "loaded_files g2 = loaded_files ?g1"
    using load_lines_loaded_files [of ev fname "name g" 1 lines ?g1 "[]"] l by simp
  then show ?thesis
    using l by (auto simp: load_file_thread_def Let_def split: option.splits sum.splits)
qed

lemma levels_lower_ok:
  "(\<exists>ls. levels_lower xs = Inr ls) \<longleftrightarrow> (\<forall>x \<in> set xs. \<exists>s. level x = JStr s)"
proof (induction xs)
  case Nil
  then show ?case by simp
next
  case (Cons x xs)
  show ?case
  proof (cases "level x")
    case (JStr s)
    with Cons show ?thesis by (auto split: sum.splits)
  qed (auto)
qed

section \<open>Duplicate file names\<close>

text \<open>
  C5.  An append whose file name is already among the loaded files is refused with the
  duplicate-file signal, and the group (its records, components seen, levels seen and
  loaded files) is exactly the group before the call.
\<close>

theorem add_file_duplicate_rejected:
  "fname \<in> set (loaded_files g) \<Longrightarrow> add_file ev g fname lines = (DuplicateFile, g)"
  by (simp add: add_file_def)

theorem add_file_duplicate_rejected_witness:
  "''agent.ndjson'' \<in> set (loaded_files
       \<lparr> name = ''Server A'', logs = [], components = [], log_levels = [],
         loaded_files = [''agent.ndjson''] \<rparr>)
   \<and> add_file env_utc
       \<lparr> name = ''Server A'', logs = [], components = [], log_levels = [],
         loaded_files = [''agent.ndjson''] \<rparr>
       ''agent.ndjson'' [Doc (JDict [(''message'', JStr ''started'')])]
     = (DuplicateFile,
        \<lparr> name = ''Server A'', logs = [], components = [], log_levels = [],
          loaded_files = [''agent.ndjson''] \<rparr>)"
  using add_file_duplicate_rejected
    [of "''agent.ndjson''"
        "\<lparr> name = ''Server A'', logs = [], components = [], log_levels = [],
           loaded_files = [''agent.ndjson''] \<rparr>"
        env_utc "[Doc (JDict [(''message'', JStr ''started'')])]"]
  by simp

text \<open>
  C10.  The file name enters the loaded files before any line is parsed: whatever the
  lines are and however the load ends, the name is recorded afterwards.  So appending a
  file, not loaded before, whose lines are all malformed JSON adds no record (the records
  are the same multiset), still makes the files count of \<open>get_stats\<close> one larger, and a
  later append of the same name is refused as a duplicate.
\<close>

theorem file_name_recorded_before_parsing:
  assumes "fname \<notin> set (loaded_files g)"
  shows "fname \<in> set (loaded_files (snd (add_file ev g fname lines)))
    \<and> ((\<forall>l \<in> set lines. l = Malformed) \<longrightarrow>
         mset (logs (snd (add_file ev g fname lines))) = mset (logs g)
       \<and> length (logs (snd (add_file ev g fname lines))) = length (logs g)
       \<and> loaded_files (snd (add_file ev g fname lines)) = loaded_files g @ [fname]
       \<and> (\<forall>s. get_stats g = Inr s \<longrightarrow>
            (\<exists>s'. get_stats (snd (add_file ev g fname lines)) = Inr s'
                \<and> files s' = files s + 1 \<and> total_logs s' = total_logs s))
       \<and> add_file ev (snd (add_file ev g fname lines)) fname lines'
           = (DuplicateFile, snd (add_file ev g fname lines)))"
proof -
  let ?g' = "snd (add_file ev g fname lines)"
  have eq: "add_file ev g fname lines = load_file_thread ev g fname lines"
    using assms by (simp add: add_file_def)
  have lf: "loaded_files ?g' = loaded_files g @ [fname]"
    using assms by (simp add: eq load_file_thread_loaded_files str_set_add_def)
  have rec: "fname \<in> set (loaded_files ?g')"
    using lf by simp
  have dup: "add_file ev ?g' fname lines' = (DuplicateFile, ?g')"
    using rec by (simp add: add_file_def)
  have rest: "mset (logs ?g') = mset (logs g)
      \<and> (\<forall>s. get_stats g = Inr s \<longrightarrow>
            (\<exists>s'. get_stats ?g' = Inr s' \<and> files s' = files s + 1 \<and> total_logs s' = total_logs s))"
    if mal: "\<forall>l \<in> set lines. l = Malformed"
  proof -
    let ?g1 = "g\<lparr>loaded_files := str_set_add (loaded_files g) fname\<rparr>"
    have mal': "\<forall>l \<in> set lines. l = Malformed \<or> l = Blank"
      using mal by auto
    note ll = load_lines_malformed [OF mal']
    have ms: "mset (logs ?g') = mset (logs g)"
    proof (cases "sort_by_timestamp (logs g)")
      case (Inl e)
      then show ?thesis by (simp add: eq load_file_thread_def ll)
    next
      case (Inr r)
      then show ?thesis
        using sort_by_timestamp_mset [OF Inr] by (simp add: eq load_file_thread_def ll)
    qed
    have st: "\<exists>s'. get_stats ?g' = Inr s' \<and> files s' = files s + 1 \<and> total_logs s' = total_logs s"
      if gs: "get_stats g = Inr s" for s
    proof -
      from gs obtain ls where ls: "levels_lower (logs g) = Inr ls"
        by (auto simp: get_stats_def split: sum.splits)
      then have "\<forall>x \<in> set (logs g). \<exists>s. level x = JStr s"
        using levels_lower_ok [of "logs g"] by blast
      moreover have "set (logs ?g') = set (logs g)"
        using ms by (rule mset_eq_setD)
      ultimately have "\<exists>ls'. levels_lower (logs ?g') = Inr ls'"
        using levels_lower_ok [of "logs ?g'"] by simp
      then obtain ls' where ls': "levels_lower (logs ?g') = Inr ls'" by blast
      have len: "length (logs ?g') = length (logs g)"
        using ms by (rule mset_eq_length)
      show ?thesis
        using gs ls ls' lf len by (auto simp: get_stats_def)
    qed
    show ?thesis using ms st by blast
  qed
  show ?thesis
    using rec lf dup rest by (auto dest: mset_eq_length)
qed

theorem file_name_recorded_before_parsing_witness:
  "''bad.log'' \<notin> set (loaded_files (new_server_group ''Server A''))
   \<and> add_file env_utc (new_server_group ''Server A'') ''bad.log'' [Malformed, Malformed]
       = (Loaded 0, \<lparr> name = ''Server A'', logs = [], components = [], log_levels = [],
                      loaded_files = [''bad.log''] \<rparr>)
   \<and> get_stats (snd (add_file env_utc (new_server_group ''Server A'') ''bad.log''
                       [Malformed, Malformed]))
       = Inr \<lparr> total_logs = 0, stat_components = 0, files = 1, errors = 0, warnings = 0 \<rparr>
   \<and> add_file env_utc
        (snd (add_file env_utc (new_server_group ''Server A'') ''bad.log''
                [Malformed, Malformed]))
        ''bad.log'' [Malformed, Malformed]
       = (DuplicateFile,
          \<lparr> name = ''Server A'', logs = [], components = [], log_levels = [],
            loaded_files = [''bad.log''] \<rparr>)"
proof -
  have h: "''bad.log'' \<notin> set (loaded_files (new_server_group ''Server A''))"
    by (simp add: new_server_group_def)
  have v: "add_file env_utc (new_server_group ''Server A'') ''bad.log'' [Malformed, Malformed]
       = (Loaded 0, \<lparr> name = ''Server A'', logs = [], components = [], log_levels = [],
                      loaded_files = [''bad.log''] \<rparr>)"
    by (simp add: add_file_def load_file_thread_def new_server_group_def str_set_add_def
        sort_by_timestamp_def py_sorted_def)
  from file_name_recorded_before_parsing
         [OF h, of env_utc "[Malformed, Malformed]" "[Malformed, Malformed]"]
  have "add_file env_utc
        (snd (add_file env_utc (new_server_group ''Server A'') ''bad.log''
                [Malformed, Malformed]))
        ''bad.log'' [Malformed, Malformed]
       = (DuplicateFile, snd (add_file env_utc (new_server_group ''Server A'') ''bad.log''
                [Malformed, Malformed]))"
    by simp
  then show ?thesis
    using h v by (simp add: get_stats_def)
qed

section \<open>Sorting after a load\<close>

text \<open>
  C1.  After a load the records should be in ascending order of their instants, the
  sentinel first.  The sort compares the naive sentinel \<^verbatim>\<open>datetime.min\<close> with the aware
  instant that \<^verbatim>\<open>fromisoformat\<close> returns for a timestamp ending in \<^verbatim>\<open>Z\<close>, which raises
  TypeError: a file whose first line carries such a timestamp and whose second line has
  none is reported as failed, and its records stay in file order, the sentinel record
  after the dated one.
\<close>

theorem sort_fails_sentinel_after_dated_record:
  "fst (add_file env_utc (new_server_group ''Server A'') ''agent.ndjson''
          [Doc (JDict [(''@timestamp'', JStr ''2024-01-15T10:00:00Z''),
                       (''log.level'', JStr ''info''), (''message'', JStr ''started'')]),
           Doc (JDict [(''log.level'', JStr ''error''), (''message'', JStr ''no timestamp'')])])
     = LoadFailed TypeError
   \<and> map parsed_timestamp
        (logs (snd (add_file env_utc (new_server_group ''Server A'') ''agent.ndjson''
          [Doc (JDict [(''@timestamp'', JStr ''2024-01-15T10:00:00Z''),
                       (''log.level'', JStr ''info''), (''message'', JStr ''started'')]),
           Doc (JDict [(''log.level'', JStr ''error''), (''message'', JStr ''no timestamp'')])])))
     = [Aware 63840909600000000 0, datetime_min]"
  by code_simp

section \<open>The record normalizer\<close>








section \<open>Sentinel records and the time range of a filter\<close>

lemma filter_logs_member:
  "filter_logs ev f ls = Inr out \<Longrightarrow> l \<in> set out \<Longrightarrow> l \<in> set ls \<and> passes ev f l = Inr True"
proof (induction ls arbitrary: out)
  case Nil
  then show ?case by simp
next
  case (Cons x xs)
  then show ?case
    by (auto split: sum.splits if_splits)
qed

lemma filter_logs_keeps:
  "filter_logs ev f ls = Inr out \<Longrightarrow> l \<in> set ls \<Longrightarrow> passes ev f l = Inr True \<Longrightarrow> l \<in> set out"
proof (induction ls arbitrary: out)
  case Nil
  then show ?case by simp
next
  case (Cons x xs)
  then show ?case
    by (auto split: sum.splits if_splits)
qed

lemma passes_without_time_range:
  "start_time f = None \<Longrightarrow> end_time f = None \<Longrightarrow> meets_other_constraints ev f l \<Longrightarrow>
   passes ev f l = Inr True"
  by (cases "component l"; cases "level l")
     (auto simp: passes_def meets_other_constraints_def lower_def)

lemma sentinel_fails_start_bound:
  "parsed_timestamp l = datetime_min \<Longrightarrow> start_time f = Some s \<Longrightarrow>
   is_aware s \<or> 0 < instant s \<Longrightarrow> passes ev f l \<noteq> Inr True"
  by (auto simp: passes_def dt_lt_def datetime_min_def split: sum.splits bool.splits)

text \<open>
  C3 as stated fails for a filter that has an end bound only: the sentinel is the least
  instant, so it is never later than the end bound, and the record passes.  The end bound
  here is what the text \<open>2024-01-15 10:00:00\<close> in the end box is read as.
\<close>

lemma example_group_loaded:
  "add_file env_utc (new_server_group ''Server A'') ''agent.ndjson''
     [Doc (JDict [(''message'', JStr ''no timestamp'')]),
      Doc (JDict [(''@timestamp'', JStr ''2024-01-15 10:00:00''), (''message'', JStr ''dated'')])]
   = (Loaded 2, example_group)"
  by code_simp

theorem sentinel_passes_end_bound:
  "apply_filters env_utc
     \<lparr> component_filter = ''All'', level_filter = ''All'', file_filter = ''All'',
       search_var = [], start_time = None,
       end_time = fromisoformat_basic (replace_Z ''2024-01-15 09:00:00'') \<rparr>
     example_group
   = Inr [undated_entry]"
  by code_simp

text \<open>
  C3, amended.  Under a filter with a start bound other than the least instant (alone or
  with an end bound), a record with the sentinel instant is never in the result: a naive
  bound skips it, and an aware bound makes the comparison raise, so that there is no
  result.  Under a filter with no time bound, a record of the group with the sentinel
  instant that meets the other constraints is in the result.
\<close>

theorem sentinel_and_time_range:
  assumes "parsed_timestamp l = datetime_min"
    and "apply_filters ev f g = Inr out"
  shows "(\<forall>s. start_time f = Some s \<and> (is_aware s \<or> 0 < instant s) \<longrightarrow> l \<notin> set out)
    \<and> (start_time f = None \<and> end_time f = None \<and> l \<in> set (logs g)
         \<and> meets_other_constraints ev f l \<longrightarrow> l \<in> set out)"
proof -
  have fl: "filter_logs ev f (logs g) = Inr out"
    using assms(2) by (simp add: apply_filters_def)
  have a: "l \<notin> set out" if "start_time f = Some s" "is_aware s \<or> 0 < instant s" for s
    using filter_logs_member [OF fl, of l] sentinel_fails_start_bound [OF assms(1) that]
    by blast
  have b: "l \<in> set out"
    if "start_time f = None" "end_time f = None" "l \<in> set (logs g)"
      "meets_other_constraints ev f l"
    using filter_logs_keeps [OF fl that(3)] passes_without_time_range [OF that(1,2,4)]
    by blast
  show ?thesis using a b by blast
qed

theorem sentinel_and_time_range_witness:
  "parsed_timestamp undated_entry = datetime_min
   \<and> apply_filters env_utc
        \<lparr> component_filter = ''All'', level_filter = ''All'', file_filter = ''All'',
          search_var = [], start_time = fromisoformat_basic (replace_Z ''2024-01-15 09:00:00''),
          end_time = None \<rparr> example_group = Inr [dated_entry]
   \<and> undated_entry \<notin> set [dated_entry]
   \<and> apply_filters env_utc
        \<lparr> component_filter = ''All'', level_filter = ''All'', file_filter = ''All'',
          search_var = [], start_time = None, end_time = None \<rparr> example_group
       = Inr [undated_entry, dated_entry]
   \<and> undated_entry \<in> set [undated_entry, dated_entry]"
proof -
  let ?f1 = "\<lparr> component_filter = ''All'', level_filter = ''All'', file_filter = ''All'',
          search_var = [], start_time = fromisoformat_basic (replace_Z ''2024-01-15 09:00:00''),
          end_time = None \<rparr>"
  let ?f2 = "\<lparr> component_filter = ''All'', level_filter = ''All'', file_filter = ''All'',
          search_var = [], start_time = None, end_time = None \<rparr>"
  have s: "parsed_timestamp undated_entry = datetime_min"
    by (simp add: undated_entry_def)
  have o1: "apply_filters env_utc ?f1 example_group = Inr [dated_entry]"
    by code_simp
  have o2: "apply_filters env_utc ?f2 example_group = Inr [undated_entry, dated_entry]"
    by code_simp
  have st: "fromisoformat_basic (replace_Z ''2024-01-15 09:00:00'') = Some (Naive 63840906000000000)"
    by code_simp
  have m: "meets_other_constraints env_utc ?f2 undated_entry"
    by (simp add: meets_other_constraints_def)
  have a0: "\<forall>s. start_time ?f1 = Some s \<and> (is_aware s \<or> 0 < instant s)
      \<longrightarrow> undated_entry \<notin> set [dated_entry]"
    using sentinel_and_time_range [OF s o1] by (rule conjunct1)
  have a: "undated_entry \<notin> set [dated_entry]"
    by (rule a0 [rule_format, of "Naive 63840906000000000"]) (simp add: st)
  have b0: "start_time ?f2 = None \<and> end_time ?f2 = None \<and> undated_entry \<in> set (logs example_group)
      \<and> meets_other_constraints env_utc ?f2 undated_entry
      \<longrightarrow> undated_entry \<in> set [undated_entry, dated_entry]"
    using sentinel_and_time_range [OF s o2] by (rule conjunct2)
  have b: "undated_entry \<in> set [undated_entry, dated_entry]"
    by (rule b0 [rule_format]) (simp add: m example_group_def)
  show ?thesis
    by (intro conjI s o1 o2 a b)
qed

section \<open>Health analysis: the memory warning\<close>
















section \<open>Component analysis: the status changes reported\<close>

lemma service_entry_normalized:
  "extract_timestamp env_utc (JStr ts) = (JStr shown, t) \<Longrightarrow> length msg \<le> 100 \<Longrightarrow>
   process_log_entry env_utc (service_doc ts msg) n ''agent.ndjson'' ''Server A''
     = Inr (service_entry n ts shown msg t)"
  by (simp add: service_doc_def service_entry_def dict_get_def extract_component_def
      dict_has_def Let_def)

lemma restart_timestamps:
  "extract_timestamp env_utc (JStr ''2024-01-15T10:00:00Z'')
     = (JStr ''2024-01-15 10:00:00 UTC'', Aware 63840909600000000 0)"
  "extract_timestamp env_utc (JStr ''2024-01-15T10:01:00Z'')
     = (JStr ''2024-01-15 10:01:00 UTC'', Aware 63840909660000000 0)"
  "extract_timestamp env_utc (JStr ''2024-01-15T10:02:00Z'')
     = (JStr ''2024-01-15 10:02:00 UTC'', Aware 63840909720000000 0)"
  "extract_timestamp env_utc (JStr ''2024-01-15T10:03:00Z'')
     = (JStr ''2024-01-15 10:03:00 UTC'', Aware 63840909780000000 0)"
  "extract_timestamp env_utc (JStr ''2024-01-15T10:04:00Z'')
     = (JStr ''2024-01-15 10:04:00 UTC'', Aware 63840909840000000 0)"
  "extract_timestamp env_utc (JStr ''2024-01-15T10:05:00Z'')
     = (JStr ''2024-01-15 10:05:00 UTC'', Aware 63840909900000000 0)"
  by code_simp+

text \<open>
  C9.  The five status changes reported for a component should be its five most recent
  ones.  The code sorts the pairs \<^verbatim>\<open>(status, timestamp)\<close>, that is by status text first
  and by instant only among equal statuses, before it takes the last five (the comment
  there says \<^verbatim>\<open>Last 5 changes\<close>).  For the component that stops at 10:00 and starts
  something at 10:01, 10:02, 10:03, 10:04 and 10:05, the report holds the starts from
  10:02 to 10:05 followed by the stop of 10:00: the oldest change is reported and the
  start of 10:01, one of the five most recent, is not.
\<close>

theorem status_changes_sorted_by_label:
  "run_component_analysis env_utc restart_group
     = Inr [(JStr ''filebeat'',
             [(''started'', Aware 63840909720000000 0),
              (''started'', Aware 63840909780000000 0),
              (''started'', Aware 63840909840000000 0),
              (''started'', Aware 63840909900000000 0),
              (''stopped'', Aware 63840909600000000 0)])]"
  by code_simp

section \<open>Similarity: reflexive, not symmetric\<close>

lemma row_loop_next:
  "\<not> j < blo \<Longrightarrow> \<not> bhi \<le> j \<Longrightarrow>
   row_loop i blo bhi j2len (j # js) (new, bi, bj, bs) =
     row_loop i blo bhi j2len js
       (new(j := next_len j2len j),
        if bs < next_len j2len j
        then (Suc i - next_len j2len j, Suc j - next_len j2len j, next_len j2len j)
        else (bi, bj, bs))"
  by (simp add: Let_def next_len_def)

lemma row_loop_diag:
  assumes "row_loop i 0 bhi j2len js (new, bi, bj, bs) = (new', bi', bj', bs')"
    and "sorted js" and "distinct js" and "\<forall>j \<in> set js. j < bhi"
    and "\<forall>j \<in> set js. j < i \<longrightarrow> next_len j2len j \<le> bs"
    and "\<forall>j \<in> set js. next_len j2len j \<le> next_len j2len i"
    and "i \<in> set js \<or> next_len j2len i \<le> bs"
    and "bi = bj"
  shows "bi' = bj' \<and> next_len j2len i \<le> bs' \<and> bs \<le> bs' \<and>
    (\<forall>j. new' j = (if j \<in> set js then next_len j2len j else new j))"
  using assms
proof (induction js arbitrary: new bi bj bs)
  case Nil
  then show ?case by simp
next
  case (Cons j js)
  let ?k = "next_len j2len j"
  have nb: "\<not> j < 0" "\<not> bhi \<le> j" using Cons.prems(4) by auto
  note step = Cons.prems(1) [unfolded row_loop_next [OF nb]]
  have srt: "sorted js" "distinct js" "\<forall>x \<in> set js. x < bhi" "\<forall>x \<in> set js. j < x" "j \<notin> set js"
    using Cons.prems(2,3,4) by (auto simp: order_less_le)
  have B: "\<forall>x \<in> set js. next_len j2len x \<le> next_len j2len i"
    using Cons.prems(6) by simp
  have upd: "\<And>f x. (if x \<in> set js then next_len j2len x else (f(j := ?k)) x)
      = (if x \<in> set (j # js) then next_len j2len x else f x)"
    by auto
  consider (lt) "j < i" | (eq) "j = i" | (gt) "i < j" by arith
  then show ?case
  proof cases
    case lt
    then have nk: "\<not> bs < ?k" using Cons.prems(5) by auto
    have s: "row_loop i 0 bhi j2len js (new(j := ?k), bi, bj, bs) = (new', bi', bj', bs')"
      using step nk by simp
    have A: "\<forall>x \<in> set js. x < i \<longrightarrow> next_len j2len x \<le> bs"
      using Cons.prems(5) by simp
    have H: "i \<in> set js \<or> next_len j2len i \<le> bs"
      using Cons.prems(7) lt by auto
    from Cons.IH [OF s srt(1,2,3) A B H Cons.prems(8)] show ?thesis
      unfolding upd .
  next
    case eq
    show ?thesis
    proof (cases "bs < ?k")
      case True
      have s: "row_loop i 0 bhi j2len js (new(j := ?k), Suc i - ?k, Suc j - ?k, ?k)
          = (new', bi', bj', bs')"
        using step True by simp
      have A: "\<forall>x \<in> set js. x < i \<longrightarrow> next_len j2len x \<le> ?k"
        using srt(4) eq by auto
      have H: "i \<in> set js \<or> next_len j2len i \<le> ?k"
        using eq by simp
      have d: "Suc i - ?k = Suc j - ?k" using eq by simp
      from Cons.IH [OF s srt(1,2,3) A B H d] True show ?thesis
        unfolding upd by simp
    next
      case False
      have s: "row_loop i 0 bhi j2len js (new(j := ?k), bi, bj, bs) = (new', bi', bj', bs')"
        using step False by simp
      have A: "\<forall>x \<in> set js. x < i \<longrightarrow> next_len j2len x \<le> bs"
        using srt(4) eq by auto
      have H: "i \<in> set js \<or> next_len j2len i \<le> bs"
        using eq False by simp
      from Cons.IH [OF s srt(1,2,3) A B H Cons.prems(8)] show ?thesis
        unfolding upd .
    qed
  next
    case gt
    then have "i \<notin> set (j # js)" using srt(4) by auto
    then have H: "next_len j2len i \<le> bs" using Cons.prems(7) by blast
    have "?k \<le> next_len j2len i" using Cons.prems(6) by simp
    then have nk: "\<not> bs < ?k" using H by simp
    have s: "row_loop i 0 bhi j2len js (new(j := ?k), bi, bj, bs) = (new', bi', bj', bs')"
      using step nk by simp
    have A: "\<forall>x \<in> set js. x < i \<longrightarrow> next_len j2len x \<le> bs"
      using srt(4) gt by auto
    from Cons.IH [OF s srt(1,2,3) A B disjI2 [OF H] Cons.prems(8)] show ?thesis
      unfolding upd .
  qed
qed

lemma run_len_step:
  "a ! j \<notin> P \<Longrightarrow> run_len a P j = (if j = 0 then 0 else run_len a P (j - 1)) + 1"
  by (cases j) simp_all

lemma diag_inv_row:
  assumes inv: "diag_inv a i (j2len, bi, bj, bs)" and i: "i < length a"
    and rl: "row_loop i 0 (length a) j2len (b2j a (a ! i)) (\<lambda>j. 0, bi, bj, bs) = (new, bi', bj', bs')"
  shows "diag_inv a (Suc i) (new, bi', bj', bs')"
proof -
  let ?P = "set (popular a)"
  let ?n = "length a"
  from inv have I1: "bi = bj"
    and I2: "\<forall>j < ?n. j2len j \<le> run_len a ?P j"
    and I3: "\<forall>j. j2len j \<le> (if i = 0 then 0 else run_len a ?P (i - 1))"
    and I4: "0 < i \<longrightarrow> j2len (i - 1) = run_len a ?P (i - 1)"
    and I5: "\<forall>i' < i. run_len a ?P i' \<le> bs"
    by (simp_all add: diag_inv_def)
  show ?thesis
  proof (cases "a ! i \<in> ?P")
    case True
    then have "b2j a (a ! i) = []" by (simp add: b2j_def)
    with rl have e: "new = (\<lambda>j. 0)" "bi' = bi" "bj' = bj" "bs' = bs" by simp_all
    have r0: "run_len a ?P i = 0" using True by (cases i) simp_all
    show ?thesis
      using I1 I5 r0 by (auto simp: diag_inv_def e less_Suc_eq)
  next
    case False
    let ?js = "filter (\<lambda>j. a ! j = a ! i) [0..<?n]"
    have js: "b2j a (a ! i) = ?js" using False by (simp add: b2j_def)
    have ri: "next_len j2len i = run_len a ?P i"
      using I4 run_len_step [OF False] by (auto simp: next_len_def)
    have nj: "next_len j2len j \<le> run_len a ?P j" if "j \<in> set ?js" for j
    proof -
      from that have jn: "j < ?n" and aj: "a ! j \<notin> ?P" using False by auto
      have "j \<noteq> 0 \<Longrightarrow> j2len (j - 1) \<le> run_len a ?P (j - 1)"
        using I2 jn by simp
      then show ?thesis
        using run_len_step [OF aj] by (auto simp: next_len_def)
    qed
    have ni: "next_len j2len j \<le> next_len j2len i" for j
    proof -
      have "j2len (j - 1) \<le> (if i = 0 then 0 else run_len a ?P (i - 1))"
        using I3 by blast
      then show ?thesis
        using I4 by (auto simp: next_len_def)
    qed
    have A: "\<forall>j \<in> set ?js. j < i \<longrightarrow> next_len j2len j \<le> bs"
    proof (intro ballI impI)
      fix j assume j: "j \<in> set ?js" "j < i"
      have "run_len a ?P j \<le> bs" using I5 j(2) by blast
      with nj [OF j(1)] show "next_len j2len j \<le> bs" by (rule le_trans)
    qed
    have mem: "i \<in> set ?js" using i by simp
    have s1: "sorted ?js" by (rule sorted_wrt_filter) simp
    have s2: "distinct ?js" by simp
    have s3: "\<forall>j \<in> set ?js. j < ?n" by simp
    have B: "\<forall>j \<in> set ?js. next_len j2len j \<le> next_len j2len i" using ni by blast
    have H: "i \<in> set ?js \<or> next_len j2len i \<le> bs" using mem by blast
    note res = row_loop_diag [OF rl [unfolded js] s1 s2 s3 A B H I1]
    from res have nw: "\<And>j. new j = (if j \<in> set ?js then next_len j2len j else 0)"
      and d: "bi' = bj'" and big: "next_len j2len i \<le> bs'" and mono: "bs \<le> bs'"
      by blast+
    have n1: "\<forall>j < ?n. new j \<le> run_len a ?P j"
      using nj by (simp add: nw)
    have n2: "\<forall>j. new j \<le> run_len a ?P i"
      using ni ri by (simp add: nw)
    have n3: "new i = run_len a ?P i"
      using mem ri by (simp add: nw)
    have n4: "\<forall>i' < Suc i. run_len a ?P i' \<le> bs'"
    proof (intro allI impI)
      fix i' assume "i' < Suc i"
      then consider "i' < i" | "i' = i" by arith
      then show "run_len a ?P i' \<le> bs'"
      proof cases
        case 1
        then have "run_len a ?P i' \<le> bs" using I5 by blast
        with mono show ?thesis by simp
      next
        case 2
        with big ri show ?thesis by simp
      qed
    qed
    show ?thesis
      using d n1 n2 n3 n4 by (simp add: diag_inv_def)
  qed
qed

lemma rows_diag:
  "rows a' idx blo bhi i ahi st = (bi', bj', bs') \<Longrightarrow> a' = a \<Longrightarrow> idx = b2j a \<Longrightarrow> blo = 0 \<Longrightarrow>
   bhi = length a \<Longrightarrow> ahi = length a \<Longrightarrow> diag_inv a i st \<Longrightarrow> bi' = bj'"
proof (induction a' idx blo bhi i ahi st rule: rows.induct)
  case (1 a' idx blo bhi i ahi j2len best)
  obtain bi bj bs where best: "best = (bi, bj, bs)" by (cases best)
  show ?case
  proof (cases "i < ahi")
    case False
    then have "best = (bi', bj', bs')" using "1.prems"(1) by (simp add: rows.simps)
    then show ?thesis using "1.prems"(7) best by (simp add: diag_inv_def)
  next
    case True
    obtain new bi1 bj1 bs1
      where rl: "row_loop i blo bhi j2len (idx (a' ! i)) (\<lambda>j. 0, best) = (new, bi1, bj1, bs1)"
      by (metis prod_cases4)
    have r: "rows a' idx blo bhi (Suc i) ahi (new, bi1, bj1, bs1) = (bi', bj', bs')"
      using "1.prems"(1) True rl by (simp add: rows.simps)
    have inv: "diag_inv a (Suc i) (new, bi1, bj1, bs1)"
      using diag_inv_row [of a i j2len bi bj bs new bi1 bj1 bs1] "1.prems" True rl best
      by simp
    from "1.IH" [OF True rl [symmetric] r "1.prems"(2,3,4,5,6) inv] show ?thesis .
  qed
qed

lemma extend_left_same: "extend_left a a 0 0 (d, d, s) = (0, 0, s + d)"
proof (induction d arbitrary: s)
  case 0
  then show ?case by (simp add: extend_left.simps)
next
  case (Suc d)
  have "extend_left a a 0 0 (Suc d, Suc d, s) = extend_left a a 0 0 (d, d, s + 1)"
    by (subst extend_left.simps) simp
  with Suc [of "s + 1"] show ?case by simp
qed

lemma extend_right_same: "s \<le> n \<Longrightarrow> extend_right a a n n (0, 0, s) = (0, 0, n)"
proof (induction "n - s" arbitrary: s)
  case 0
  then show ?case by (simp add: extend_right.simps)
next
  case (Suc m)
  then have lt: "s < n" and m: "m = n - (s + 1)" and le: "s + 1 \<le> n" by arith+
  have "extend_right a a n n (0, 0, s) = extend_right a a n n (0, 0, s + 1)"
    using lt by (subst extend_right.simps) simp
  with Suc.hyps(1) [OF m le] show ?case by simp
qed

lemma find_longest_match_same:
  "find_longest_match a a (b2j a) 0 (length a) 0 (length a) = (0, 0, length a)"
proof -
  obtain bi bj bs
    where r: "rows a (b2j a) 0 (length a) 0 (length a) (\<lambda>j. 0, 0, 0, 0) = (bi, bj, bs)"
    by (metis prod_cases3)
  have inv: "diag_inv a 0 (\<lambda>j. 0, 0, 0, 0)"
    by (simp add: diag_inv_def)
  have d: "bi = bj"
    using rows_diag [OF r refl refl refl refl refl inv] .
  have "bi + bs \<le> max 0 (length a)"
    using rows_bounds [OF r, of 0] by simp
  then have le: "bs + bi \<le> length a" by simp
  show ?thesis
    unfolding find_longest_match_def r d [symmetric]
    by (simp add: d [symmetric] extend_left_same extend_right_same [OF le])
qed

lemma matching_blocks_same:
  "matching_blocks a a (b2j a) 0 (length a) 0 (length a)
     = (if a = [] then [] else [(0, 0, length a)])"
  by (subst matching_blocks.simps) (simp add: find_longest_match_same)

text \<open>
  C2 as stated fails in its first half: the similarity of two strings depends on their
  order.  (These are the values that the library's documentation gives for the pair.)
\<close>

theorem similarity_not_symmetric:
  "calculate_similarity ''tide'' ''diet'' = 1 / 4
   \<and> calculate_similarity ''diet'' ''tide'' = 1 / 2
   \<and> calculate_similarity ''tide'' ''diet'' \<noteq> calculate_similarity ''diet'' ''tide''"
  by code_simp

text \<open>
  C2, amended.  The similarity is reflexive: every string, of any length, has similarity
  1 with itself.
\<close>

theorem similarity_reflexive: "calculate_similarity a a = 1"
  by (simp add: calculate_similarity_def ratio_def matching_blocks_same)

section \<open>Message similarity correlations\<close>

lemma py_lower_Inr: "py_lower v = Inr s \<longleftrightarrow> (\<exists>t. v = JStr t \<and> s = lower t)"
  by (cases v) auto

lemma ebind_Inr: "ebind m f = Inr y \<longleftrightarrow> (\<exists>x. m = Inr x \<and> f x = Inr y)"
  by (cases m) (simp_all add: ebind_def)

lemma important_logs_sound:
  "important_logs ls = Inr r \<Longrightarrow> l \<in> set r \<Longrightarrow> l \<in> set ls \<and> is_important_level (level l)"
proof (induction ls arbitrary: r)
  case Nil
  then show ?case by simp
next
  case (Cons x xs)
  from Cons.prems(1) obtain lvl r' where lv: "py_lower (level x) = Inr lvl"
    and r': "important_logs xs = Inr r'"
    and r: "r = (if lvl \<in> set [''error'', ''warn'', ''warning''] then x # r' else r')"
    by (auto simp: ebind_Inr)
  show ?case
  proof (cases "l \<in> set r'")
    case True
    with Cons.IH [OF r'] show ?thesis by simp
  next
    case False
    with Cons.prems(2) r have "l = x" "lvl \<in> set [''error'', ''warn'', ''warning'']"
      by (auto split: if_splits)
    with lv show ?thesis
      by (auto simp: is_important_level_def py_lower_Inr)
  qed
qed

lemma similar_to_sound:
  "similar_to thr w l1 ls = Inr r \<Longrightarrow> c \<in> set r \<Longrightarrow>
   log1 c = l1 \<and> log2 c \<in> set ls
   \<and> \<not> dt_eq (parsed_timestamp (log2 c)) datetime_min
   \<and> (\<exists>d. dt_sub (parsed_timestamp l1) (parsed_timestamp (log2 c)) = Inr d
          \<and> time_diff_minutes c = \<bar>of_int d\<bar> / 60000000
          \<and> \<bar>of_int d\<bar> / 60000000 \<le> w)
   \<and> (\<exists>m1 m2. full_message l1 = JStr m1 \<and> full_message (log2 c) = JStr m2
          \<and> similarity c = calculate_similarity (lower m1) (lower m2))
   \<and> thr \<le> similarity c"
proof (induction ls arbitrary: r)
  case Nil
  then show ?case by simp
next
  case (Cons l2 ls)
  show ?case
  proof (cases "dt_eq (parsed_timestamp l2) datetime_min")
    case True
    with Cons.prems have "similar_to thr w l1 ls = Inr r" by simp
    from Cons.IH [OF this Cons.prems(2)] show ?thesis by simp
  next
    case real: False
    from Cons.prems(1) real obtain d where d: "dt_sub (parsed_timestamp l1) (parsed_timestamp l2) = Inr d"
      by (auto simp: ebind_Inr)
    let ?td = "\<bar>of_int d :: rat\<bar> / 60000000"
    show ?thesis
    proof (cases "?td > w")
      case True
      with Cons.prems(1) real d have "similar_to thr w l1 ls = Inr r"
        by (simp add: ebind_def Let_def)
      from Cons.IH [OF this Cons.prems(2)] show ?thesis by simp
    next
      case False
      with Cons.prems(1) real d obtain m1 m2 r'
        where m1: "py_lower (full_message l1) = Inr m1"
          and m2: "py_lower (full_message l2) = Inr m2"
          and r': "similar_to thr w l1 ls = Inr r'"
          and r: "r = (if calculate_similarity m1 m2 \<ge> thr
                 then \<lparr> log1 = l1, log2 = l2, similarity = calculate_similarity m1 m2,
                        time_diff_minutes = ?td \<rparr> # r'
                 else r')"
        by (auto simp: ebind_Inr Let_def)
      show ?thesis
      proof (cases "c \<in> set r'")
        case True
        from Cons.IH [OF r' True] show ?thesis by simp
      next
        case nin: False
        with Cons.prems(2) r
        have c: "c = \<lparr> log1 = l1, log2 = l2, similarity = calculate_similarity m1 m2,
                        time_diff_minutes = ?td \<rparr>"
          and ge: "thr \<le> calculate_similarity m1 m2"
          by (auto split: if_splits)
        from m1 m2 obtain t1 t2 where t: "full_message l1 = JStr t1" "m1 = lower t1"
          "full_message l2 = JStr t2" "m2 = lower t2"
          by (auto simp: py_lower_Inr)
        show ?thesis
          using c ge real d False t by simp
      qed
    qed
  qed
qed

lemma similar_pairs_sound:
  "similar_pairs thr w ls1 ls2 = Inr r \<Longrightarrow> c \<in> set r \<Longrightarrow>
   log1 c \<in> set ls1 \<and> log2 c \<in> set ls2
   \<and> \<not> dt_eq (parsed_timestamp (log1 c)) datetime_min
   \<and> \<not> dt_eq (parsed_timestamp (log2 c)) datetime_min
   \<and> (\<exists>d. dt_sub (parsed_timestamp (log1 c)) (parsed_timestamp (log2 c)) = Inr d
          \<and> time_diff_minutes c = \<bar>of_int d\<bar> / 60000000
          \<and> \<bar>of_int d\<bar> / 60000000 \<le> w)
   \<and> (\<exists>m1 m2. full_message (log1 c) = JStr m1 \<and> full_message (log2 c) = JStr m2
          \<and> similarity c = calculate_similarity (lower m1) (lower m2))
   \<and> thr \<le> similarity c"
proof (induction ls1 arbitrary: r)
  case Nil
  then show ?case by simp
next
  case (Cons l1 ls1)
  show ?case
  proof (cases "dt_eq (parsed_timestamp l1) datetime_min")
    case True
    with Cons.prems have "similar_pairs thr w ls1 ls2 = Inr r" by simp
    from Cons.IH [OF this Cons.prems(2)] show ?thesis by simp
  next
    case False
    with Cons.prems(1) obtain r1 r' where r1: "similar_to thr w l1 ls2 = Inr r1"
      and r': "similar_pairs thr w ls1 ls2 = Inr r'" and r: "r = r1 @ r'"
      by (auto simp: ebind_Inr)
    show ?thesis
    proof (cases "c \<in> set r1")
      case True
      from similar_to_sound [OF r1 True] False show ?thesis by simp
    next
      case nin: False
      with Cons.prems(2) r have "c \<in> set r'" by simp
      from Cons.IH [OF r' this] show ?thesis by simp
    qed
  qed
qed

text \<open>
  C6.  When \<open>find_similar_messages\<close> returns a list, every element pairs an entry of the
  first set with an entry of the second, both with a level that is \<open>error\<close>, \<open>warn\<close> or
  \<open>warning\<close> in lower case and with an instant that is not the sentinel, whose distance in
  minutes is at most the window, and its similarity, that of the two lower-cased messages,
  is at least the threshold; and the list is in descending order of similarity.
\<close>

theorem similar_messages_valid_sorted:
  assumes "find_similar_messages logs1 logs2 similarity_threshold time_window_minutes = Inr cs"
  shows "(\<forall>c \<in> set cs.
            valid_similarity_correlation logs1 logs2 similarity_threshold time_window_minutes c)
    \<and> sorted_wrt (\<lambda>x y. similarity x \<ge> similarity y) cs"
proof -
  from assms obtain i1 i2 r where i1: "important_logs logs1 = Inr i1"
    and i2: "important_logs logs2 = Inr i2"
    and r: "similar_pairs similarity_threshold time_window_minutes i1 i2 = Inr r"
    and cs: "cs = sort_key (\<lambda>x. - similarity x) r"
    by (auto simp: find_similar_messages_def ebind_Inr)
  have v: "valid_similarity_correlation logs1 logs2 similarity_threshold time_window_minutes c"
    if "c \<in> set cs" for c
  proof -
    from that cs have c: "c \<in> set r" by simp
    note p = similar_pairs_sound [OF r c]
    from p have "log1 c \<in> set i1" "log2 c \<in> set i2" by blast+
    with important_logs_sound [OF i1] important_logs_sound [OF i2]
    have "log1 c \<in> set logs1 \<and> is_important_level (level (log1 c))"
      "log2 c \<in> set logs2 \<and> is_important_level (level (log2 c))"
      by blast+
    with p show ?thesis
      unfolding valid_similarity_correlation_def by blast
  qed
  have "sorted (map (\<lambda>x. - similarity x) cs)"
    unfolding cs by (rule sorted_sort_key)
  then have s: "sorted_wrt (\<lambda>x y. similarity x \<ge> similarity y) cs"
    by (simp add: sorted_map)
  show ?thesis using v s by blast
qed

theorem similar_messages_valid_sorted_witness:
  "find_similar_messages
     [event_entry ''ERROR'' ''connection refused'' (Aware 63840909600000000 0)]
     [event_entry ''warn'' ''Connection refused'' (Aware 63840909660000000 0)] (9 / 10) 5
   = Inr [\<lparr> log1 = event_entry ''ERROR'' ''connection refused'' (Aware 63840909600000000 0),
            log2 = event_entry ''warn'' ''Connection refused'' (Aware 63840909660000000 0),
            similarity = 1, time_diff_minutes = 1 \<rparr>]
   \<and> valid_similarity_correlation
       [event_entry ''ERROR'' ''connection refused'' (Aware 63840909600000000 0)]
       [event_entry ''warn'' ''Connection refused'' (Aware 63840909660000000 0)] (9 / 10) 5
       \<lparr> log1 = event_entry ''ERROR'' ''connection refused'' (Aware 63840909600000000 0),
         log2 = event_entry ''warn'' ''Connection refused'' (Aware 63840909660000000 0),
         similarity = 1, time_diff_minutes = 1 \<rparr>"
proof -
  let ?e1 = "event_entry ''ERROR'' ''connection refused'' (Aware 63840909600000000 0)"
  let ?e2 = "event_entry ''warn'' ''Connection refused'' (Aware 63840909660000000 0)"
  let ?c = "\<lparr> log1 = ?e1, log2 = ?e2, similarity = 1, time_diff_minutes = 1 \<rparr>"
  have r: "find_similar_messages [?e1] [?e2] (9 / 10) 5 = Inr [?c]"
    by code_simp
  have "\<forall>c \<in> set [?c]. valid_similarity_correlation [?e1] [?e2] (9 / 10) 5 c"
    using similar_messages_valid_sorted [OF r] by (rule conjunct1)
  then have "valid_similarity_correlation [?e1] [?e2] (9 / 10) 5 ?c"
    by simp
  with r show ?thesis by (intro conjI)
qed

section \<open>Timeline correlations\<close>

lemma dt_eq_bucket_id: "dt_eq a b \<longleftrightarrow> bucket_id a = bucket_id b"
  by (simp add: dt_eq_def bucket_id_def)

lemma bucket_find_keyed: "bucket_find tab q = map_of (keyed tab) (bucket_id q)"
  by (induction tab) (auto simp: keyed_def dt_eq_bucket_id)

lemma keyed_keys: "map fst (keyed tab) = map (\<lambda>p. bucket_id (fst p)) tab"
  by (simp add: keyed_def case_prod_unfold)

lemma bucket_append_keys:
  "map (\<lambda>p. bucket_id (fst p)) (bucket_append tab k l) =
     (if bucket_id k \<in> (\<lambda>p. bucket_id (fst p)) ` set tab
      then map (\<lambda>p. bucket_id (fst p)) tab
      else map (\<lambda>p. bucket_id (fst p)) tab @ [bucket_id k])"
proof (induction tab)
  case Nil
  then show ?case by simp
next
  case (Cons p tab)
  obtain k' ls where p: "p = (k', ls)" by (cases p)
  show ?case
  proof (cases "bucket_id k' = bucket_id k")
    case True
    then show ?thesis by (simp add: p dt_eq_bucket_id)
  next
    case False
    then have "bucket_id k \<noteq> bucket_id k'" by simp
    with False Cons.IH show ?thesis
      by (simp add: p dt_eq_bucket_id)
  qed
qed

lemma keyed_bucket_append_distinct:
  "distinct (map fst (keyed tab)) \<Longrightarrow> distinct (map fst (keyed (bucket_append tab k l)))"
  by (simp add: keyed_keys bucket_append_keys)

lemma keyed_bucket_append_lookup:
  "map_of (keyed (bucket_append tab k l)) q =
     (if q = bucket_id k
      then Some ((case map_of (keyed tab) q of None \<Rightarrow> [] | Some ls \<Rightarrow> ls) @ [l])
      else map_of (keyed tab) q)"
  by (induction tab) (auto simp: keyed_def dt_eq_bucket_id)

lemma buckets_of_step:
  assumes "buckets_of tab seen" and "\<not> dt_eq (parsed_timestamp l) datetime_min"
  shows "buckets_of (bucket_append tab (get_time_bucket (parsed_timestamp l)) l) (seen @ [l])"
proof -
  let ?k = "get_time_bucket (parsed_timestamp l)"
  from assms(1) have d: "distinct (map fst (keyed tab))"
    and m: "\<And>q. map_of (keyed tab) q
            = (if bucket_logs seen q = [] then None else Some (bucket_logs seen q))"
    unfolding buckets_of_def by blast+
  have d': "distinct (map fst (keyed (bucket_append tab ?k l)))"
    by (rule keyed_bucket_append_distinct [OF d])
  have "map_of (keyed (bucket_append tab ?k l)) q
      = (if bucket_logs (seen @ [l]) q = [] then None else Some (bucket_logs (seen @ [l]) q))" for q
    using assms(2) by (simp add: keyed_bucket_append_lookup m bucket_logs_def)
  with d' show ?thesis by (simp add: buckets_of_def)
qed

lemma buckets_of_skip:
  assumes "buckets_of tab seen" and "dt_eq (parsed_timestamp l) datetime_min"
  shows "buckets_of tab (seen @ [l])"
  using assms by (simp add: buckets_of_def bucket_logs_def)

lemma make_buckets_of:
  "buckets_of tab seen \<Longrightarrow> buckets_of (make_buckets tab ls) (seen @ ls)"
proof (induction ls arbitrary: tab seen)
  case Nil
  then show ?case by simp
next
  case (Cons l ls)
  show ?case
  proof (cases "dt_eq (parsed_timestamp l) datetime_min")
    case True
    from Cons.IH [OF buckets_of_skip [OF Cons.prems True]] True show ?thesis by simp
  next
    case False
    from Cons.IH [OF buckets_of_step [OF Cons.prems False]] False show ?thesis by simp
  qed
qed

lemma make_buckets_all: "buckets_of (make_buckets [] ls) ls"
proof -
  have "buckets_of [] []"
    by (simp add: buckets_of_def keyed_def bucket_logs_def)
  from make_buckets_of [OF this, of ls] show ?thesis by simp
qed


lemma bucket_errors_filter:
  "bucket_errors ls = Inr r \<Longrightarrow> r = filter (\<lambda>l. is_error_level (level l)) ls"
proof (induction ls arbitrary: r)
  case Nil
  then show ?case by simp
next
  case (Cons l ls)
  from Cons.prems obtain lvl r' where lv: "py_lower (level l) = Inr lvl"
    and r': "bucket_errors ls = Inr r'"
    and r: "r = (if lvl = ''error'' then l # r' else r')"
    by (auto simp: ebind_Inr)
  from lv have "is_error_level (level l) \<longleftrightarrow> lvl = ''error''"
    by (auto simp: py_lower_Inr is_error_level_def)
  with Cons.IH [OF r'] r show ?case by simp
qed

lemma dt_add_minutes_id:
  "dt_add_minutes b m = Inr b' \<Longrightarrow> bucket_id b' = (is_aware b, instant b + m * 60000000)"
  by (cases b) (auto simp: bucket_id_def Let_def split: if_splits)

lemma correlate_offsets_count:
  "correlate_offsets B b L offs = Inr r \<Longrightarrow> distinct offs \<Longrightarrow>
   (\<forall>c \<in> set r. time_bucket c = b)
   \<and> (\<forall>off. length (filter (\<lambda>c. time_offset_minutes c = off) r)
          = (if off \<in> set offs \<and> qualifies B b L off then 1 else 0))"
proof (induction offs arbitrary: r)
  case Nil
  then show ?case by simp
next
  case (Cons o1 offs)
  from Cons.prems(1) obtain cb found r' where cb: "dt_add_minutes b o1 = Inr cb"
    and f: "(case bucket_find B cb of
              None \<Rightarrow> Inr []
            | Some bucket2_logs \<Rightarrow>
                ebind (bucket_errors L) (\<lambda>bucket1_errors.
                ebind (bucket_errors bucket2_logs) (\<lambda>bucket2_errors.
                Inr (if bucket1_errors \<noteq> [] \<and> bucket2_errors \<noteq> []
                     then [\<lparr> time_bucket = b,
                              server1_events = length L,
                              server2_events = length bucket2_logs,
                              server1_errors = length bucket1_errors,
                              server2_errors = length bucket2_errors,
                              time_offset_minutes = o1 \<rparr>]
                     else [])))) = Inr found"
    and r': "correlate_offsets B b L offs = Inr r'" and r: "r = found @ r'"
    by (auto simp: ebind_Inr)
  from Cons.prems(2) have d: "distinct offs" and n: "o1 \<notin> set offs" by simp_all
  note IH = Cons.IH [OF r' d]
  have id: "bucket_find B cb = map_of (keyed B) (is_aware b, instant b + o1 * 60000000)"
    using dt_add_minutes_id [OF cb] by (simp add: bucket_find_keyed)
  have fd: "(\<forall>c \<in> set found. time_bucket c = b \<and> time_offset_minutes c = o1)
      \<and> length found = (if qualifies B b L o1 then 1 else 0)"
  proof (cases "bucket_find B cb")
    case None
    with f id show ?thesis by (simp add: qualifies_def)
  next
    case (Some L2)
    with f obtain e1 e2 where e1: "bucket_errors L = Inr e1" and e2: "bucket_errors L2 = Inr e2"
      and fo: "found = (if e1 \<noteq> [] \<and> e2 \<noteq> []
                     then [\<lparr> time_bucket = b,
                              server1_events = length L,
                              server2_events = length L2,
                              server1_errors = length e1,
                              server2_errors = length e2,
                              time_offset_minutes = o1 \<rparr>]
                     else [])"
      by (auto simp: ebind_Inr)
    have q: "qualifies B b L o1 \<longleftrightarrow> e1 \<noteq> [] \<and> e2 \<noteq> []"
      using Some id bucket_errors_filter [OF e1] bucket_errors_filter [OF e2]
      by (simp add: qualifies_def filter_empty_conv)
    show ?thesis using fo q by simp
  qed
  have a: "\<forall>c \<in> set r. time_bucket c = b"
    using fd IH r by auto
  have b: "length (filter (\<lambda>c. time_offset_minutes c = off) r)
      = (if off \<in> set (o1 # offs) \<and> qualifies B b L off then 1 else 0)" for off
  proof (cases "off = o1")
    case True
    have "filter (\<lambda>c. time_offset_minutes c = off) found = found"
      using fd True by (simp add: filter_id_conv)
    moreover have "length (filter (\<lambda>c. time_offset_minutes c = off) r') = 0"
      using IH n True by simp
    ultimately show ?thesis using fd True r by simp
  next
    case False
    have "filter (\<lambda>c. time_offset_minutes c = off) found = []"
      using fd False by (simp add: filter_empty_conv)
    then show ?thesis using IH False r by simp
  qed
  show ?case using a b by blast
qed

lemma emitted_append: "emitted (xs @ ys) aw pos off = emitted xs aw pos off + emitted ys aw pos off"
  by (simp add: emitted_def)

lemma emitted_one_bucket:
  assumes "\<forall>c \<in> set r. time_bucket c = b"
  shows "emitted r aw pos off
    = (if bucket_id b = (aw, pos) then length (filter (\<lambda>c. time_offset_minutes c = off) r) else 0)"
proof (cases "bucket_id b = (aw, pos)")
  case True
  then have "filter (\<lambda>c. is_aware (time_bucket c) = aw \<and> instant (time_bucket c) = pos
                          \<and> time_offset_minutes c = off) r
      = filter (\<lambda>c. time_offset_minutes c = off) r"
    using assms by (intro filter_cong) (auto simp: bucket_id_def)
  with True show ?thesis by (simp add: emitted_def)
next
  case False
  then have "filter (\<lambda>c. is_aware (time_bucket c) = aw \<and> instant (time_bucket c) = pos
                          \<and> time_offset_minutes c = off) r = []"
    using assms by (auto simp: filter_empty_conv bucket_id_def)
  with False show ?thesis by (simp add: emitted_def)
qed

lemma correlate_buckets_count:
  "correlate_buckets B offs tab = Inr r \<Longrightarrow> distinct offs \<Longrightarrow> distinct (map fst (keyed tab)) \<Longrightarrow>
   emitted r aw pos off
     = (if off \<in> set offs \<and> (\<exists>(b, L) \<in> set tab. bucket_id b = (aw, pos) \<and> qualifies B b L off)
        then 1 else 0)"
proof (induction tab arbitrary: r)
  case Nil
  then show ?case by (simp add: emitted_def)
next
  case (Cons p tab)
  obtain b L where p: "p = (b, L)" by (cases p)
  from Cons.prems(1) p obtain r1 r' where r1: "correlate_offsets B b L offs = Inr r1"
    and r': "correlate_buckets B offs tab = Inr r'" and r: "r = r1 @ r'"
    by (auto simp: ebind_Inr)
  from Cons.prems(3) p have d: "distinct (map fst (keyed tab))"
    and n: "bucket_id b \<notin> set (map fst (keyed tab))"
    by (simp_all add: keyed_def)
  note c1 = correlate_offsets_count [OF r1 Cons.prems(2)]
  note IH = Cons.IH [OF r' Cons.prems(2) d]
  have e1: "emitted r1 aw pos off
      = (if bucket_id b = (aw, pos) \<and> off \<in> set offs \<and> qualifies B b L off then 1 else 0)"
    using emitted_one_bucket [of r1 b aw pos off] c1 by simp
  show ?case
  proof (cases "bucket_id b = (aw, pos)")
    case True
    have no: "\<not> (\<exists>(b', L') \<in> set tab. bucket_id b' = (aw, pos) \<and> qualifies B b' L' off)"
      using n True by (force simp: keyed_keys)
    then have "emitted r' aw pos off = 0" using IH by simp
    then show ?thesis using e1 True p r no by (simp add: emitted_append)
  next
    case False
    then show ?thesis using e1 IH p r by (simp add: emitted_append)
  qed
qed

lemma is_aware_get_time_bucket [simp]: "is_aware (get_time_bucket t) = is_aware t"
  by (cases t) simp_all

lemma bucket_logs_error:
  "(\<exists>l \<in> set (bucket_logs ls (aw, pos)). is_error_level (level l)) \<longleftrightarrow> error_in_bucket ls aw pos"
  by (auto simp: bucket_logs_def error_in_bucket_def in_bucket_def bucket_id_def)

lemma buckets_of_lookup:
  "buckets_of tab ls \<Longrightarrow>
   map_of (keyed tab) q = (if bucket_logs ls q = [] then None else Some (bucket_logs ls q))"
  unfolding buckets_of_def by blast

lemma buckets_of_lookup_Some:
  "buckets_of tab ls \<Longrightarrow> bucket_logs ls q \<noteq> [] \<Longrightarrow>
   map_of (keyed tab) q = Some (bucket_logs ls q)"
  by (drule buckets_of_lookup [of _ _ q]) (simp only: if_False)

lemma buckets_of_entry:
  assumes "buckets_of tab ls" and "(b, L) \<in> set tab"
  shows "L = bucket_logs ls (bucket_id b)"
proof -
  from assms(1) have d: "distinct (map fst (keyed tab))"
    and m: "\<And>q. map_of (keyed tab) q
            = (if bucket_logs ls q = [] then None else Some (bucket_logs ls q))"
    unfolding buckets_of_def by blast+
  have "(bucket_id b, L) \<in> set (keyed tab)"
    using assms(2) by (force simp: keyed_def)
  then have "map_of (keyed tab) (bucket_id b) = Some L"
    using d by simp
  with m [of "bucket_id b"] show ?thesis by (simp split: if_splits)
qed

lemma buckets_of_has_entry:
  assumes "buckets_of tab ls" and "bucket_logs ls q \<noteq> []"
  shows "\<exists>(b, L) \<in> set tab. bucket_id b = q \<and> L = bucket_logs ls q"
proof -
  from assms have "map_of (keyed tab) q = Some (bucket_logs ls q)"
    by (rule buckets_of_lookup_Some)
  then have "(q, bucket_logs ls q) \<in> set (keyed tab)"
    by (rule map_of_SomeD)
  then show ?thesis by (auto simp: keyed_def)
qed

lemma qualifies_buckets:
  assumes "buckets_of tab1 logs1" and "buckets_of B logs2"
  shows "(\<exists>(b, L) \<in> set tab1. bucket_id b = (aw, pos) \<and> qualifies B b L off)
    \<longleftrightarrow> error_in_bucket logs1 aw pos \<and> error_in_bucket logs2 aw (pos + off * 60000000)"
proof
  assume "\<exists>(b, L) \<in> set tab1. bucket_id b = (aw, pos) \<and> qualifies B b L off"
  then obtain b L where bl: "(b, L) \<in> set tab1" and id: "bucket_id b = (aw, pos)"
    and q: "qualifies B b L off" by blast
  have L: "L = bucket_logs logs1 (aw, pos)"
    using buckets_of_entry [OF assms(1) bl] id by simp
  from q obtain L2 where e1: "\<exists>l \<in> set L. is_error_level (level l)"
    and m2: "map_of (keyed B) (is_aware b, instant b + off * 60000000) = Some L2"
    and e2: "\<exists>l \<in> set L2. is_error_level (level l)"
    unfolding qualifies_def by blast
  from id have ap: "is_aware b = aw" "instant b = pos" by (simp_all add: bucket_id_def)
  from m2 buckets_of_lookup [OF assms(2), of "(aw, pos + off * 60000000)"]
  have "L2 = bucket_logs logs2 (aw, pos + off * 60000000)"
    unfolding ap by (simp split: if_splits)
  with e1 e2 L show "error_in_bucket logs1 aw pos \<and> error_in_bucket logs2 aw (pos + off * 60000000)"
    by (simp add: bucket_logs_error)
next
  assume a: "error_in_bucket logs1 aw pos \<and> error_in_bucket logs2 aw (pos + off * 60000000)"
  then have e1: "\<exists>l \<in> set (bucket_logs logs1 (aw, pos)). is_error_level (level l)"
    and e2: "\<exists>l \<in> set (bucket_logs logs2 (aw, pos + off * 60000000)). is_error_level (level l)"
    by (simp_all add: bucket_logs_error)
  from e1 have "bucket_logs logs1 (aw, pos) \<noteq> []" by auto
  from buckets_of_has_entry [OF assms(1) this]
  obtain b L where bl: "(b, L) \<in> set tab1" and id: "bucket_id b = (aw, pos)"
    and L: "L = bucket_logs logs1 (aw, pos)" by blast
  from id have ap: "is_aware b = aw" "instant b = pos" by (simp_all add: bucket_id_def)
  from e2 have "bucket_logs logs2 (aw, pos + off * 60000000) \<noteq> []" by auto
  with assms(2) have "map_of (keyed B) (aw, pos + off * 60000000)
      = Some (bucket_logs logs2 (aw, pos + off * 60000000))"
    by (rule buckets_of_lookup_Some)
  with e1 e2 L have "qualifies B b L off"
    unfolding qualifies_def ap by blast
  with bl id show "\<exists>(b, L) \<in> set tab1. bucket_id b = (aw, pos) \<and> qualifies B b L off"
    by blast
qed

text \<open>
  C4.  For a window that is not negative, when \<open>find_timeline_correlations\<close> returns a
  list, the list holds exactly one correlation for a bucket of the first set and an
  offset if the offset is an integer from \<open>- \<lfloor>window\<rfloor>\<close> to \<open>\<lfloor>window\<rfloor>\<close>, the first set
  has an entry with an error level in the bucket, and the second set has one in the
  bucket that many minutes later; otherwise it holds none.  So every qualifying offset of
  a bucket is emitted, once, and nothing is merged.
\<close>

theorem timeline_correlations_emitted:
  assumes "find_timeline_correlations logs1 logs2 time_window_minutes = Inr cs"
    and "0 \<le> time_window_minutes"
  shows "emitted cs aware pos off
    = (if - \<lfloor>time_window_minutes\<rfloor> \<le> off \<and> off \<le> \<lfloor>time_window_minutes\<rfloor>
          \<and> error_in_bucket logs1 aware pos
          \<and> error_in_bucket logs2 aware (pos + off * 60000000)
       then 1 else 0)"
proof -
  let ?n = "\<lfloor>time_window_minutes\<rfloor>"
  have n: "py_int time_window_minutes = ?n"
    using assms(2) by (simp add: py_int_def)
  have r: "correlate_buckets (make_buckets [] logs2) [- ?n..?n] (make_buckets [] logs1) = Inr cs"
    using assms(1) n by (simp add: find_timeline_correlations_def Let_def)
  have b1: "buckets_of (make_buckets [] logs1) logs1" and b2: "buckets_of (make_buckets [] logs2) logs2"
    by (rule make_buckets_all)+
  have d: "distinct (map fst (keyed (make_buckets [] logs1)))"
    using b1 unfolding buckets_of_def by blast
  have "emitted cs aware pos off
      = (if off \<in> set [- ?n..?n]
            \<and> (\<exists>(b, L) \<in> set (make_buckets [] logs1).
                  bucket_id b = (aware, pos) \<and> qualifies (make_buckets [] logs2) b L off)
         then 1 else 0)"
    by (rule correlate_buckets_count [OF r _ d]) simp
  then show ?thesis
    unfolding qualifies_buckets [OF b1 b2] by simp
qed

theorem timeline_correlations_emitted_witness:
  "find_timeline_correlations
     [event_entry ''ERROR'' ''connection refused'' (Aware 63840909600000000 0)]
     [event_entry ''error'' ''connection reset'' (Aware 63840909690000000 0)] 2
   = Inr [\<lparr> time_bucket = Aware 63840909600000000 0, server1_events = 1, server2_events = 1,
            server1_errors = 1, server2_errors = 1, time_offset_minutes = 1 \<rparr>]
   \<and> (0 :: rat) \<le> 2
   \<and> error_in_bucket [event_entry ''ERROR'' ''connection refused'' (Aware 63840909600000000 0)]
         True 63840909600000000
   \<and> error_in_bucket [event_entry ''error'' ''connection reset'' (Aware 63840909690000000 0)]
         True (63840909600000000 + 1 * 60000000)"
proof -
  let ?l1 = "[event_entry ''ERROR'' ''connection refused'' (Aware 63840909600000000 0)]"
  let ?l2 = "[event_entry ''error'' ''connection reset'' (Aware 63840909690000000 0)]"
  let ?c = "\<lparr> time_bucket = Aware 63840909600000000 0, server1_events = 1, server2_events = 1,
            server1_errors = 1, server2_errors = 1, time_offset_minutes = 1 \<rparr>"
  have r: "find_timeline_correlations ?l1 ?l2 2 = Inr [?c]"
    by code_simp
  have h: "(0 :: rat) \<le> 2" by simp
  have e: "emitted [?c] True 63840909600000000 1 = 1"
    by (simp add: emitted_def)
  have "emitted [?c] True 63840909600000000 1
    = (if - \<lfloor>2 :: rat\<rfloor> \<le> 1 \<and> 1 \<le> \<lfloor>2 :: rat\<rfloor>
          \<and> error_in_bucket ?l1 True 63840909600000000
          \<and> error_in_bucket ?l2 True (63840909600000000 + 1 * 60000000)
       then 1 else 0)"
    by (rule timeline_correlations_emitted [OF r h])
  with e have "error_in_bucket ?l1 True 63840909600000000
      \<and> error_in_bucket ?l2 True (63840909600000000 + 1 * 60000000)"
    by (simp split: if_splits)
  with r h show ?thesis by (intro conjI) simp_all
qed

end
